theory Spec2Isabelle
  imports Complex_Main "HOL-Library.Log_Nat"
begin

section \<open>The Hidden Number Problem notebook\<close>

text \<open>
  The notebook fixes a prime \<open>p\<close>, its bit length \<open>n = ceil (log (p, 2))\<close>, a leak
  parameter \<open>k\<close> and a query count \<open>d\<close> as module-level globals. Here they are
  arguments of every function that reads them. Sage integers are unbounded (\<open>int\<close>),
  Sage rationals are exact (\<open>rat\<close>).
\<close>

text \<open>
  The exceptions that the code raises. \<open>ReductionNonTermination\<close> is not one of
  them: it is the error of the spec's reduction, and only the reduction modelled from
  the spec below reports it.
\<close>

datatype error =
    ValueError
  | ZeroDivisionError
  | IndexError
  | TypeError
  | AssertionError
  | ReductionNonTermination

subsection \<open>The random source\<close>

text \<open>
  \<open>randint (a, b)\<close> returns an integer of \<open>[a, b]\<close> and raises \<open>ValueError\<close> on an
  empty range. The global generator is an entropy tape with a read position: a draw
  reduces the next tape entry into the range and advances the position.
\<close>

type_synonym tape = "nat \<Rightarrow> nat"

text \<open>The value that \<open>randint (1, p - 1)\<close> returns at tape position \<open>j\<close>.\<close>

definition draw :: "int \<Rightarrow> tape \<Rightarrow> nat \<Rightarrow> int" where
  "draw p tp j = 1 + int (tp j) mod (p - 1)"

definition randint :: "int \<Rightarrow> int \<Rightarrow> tape \<Rightarrow> nat \<Rightarrow> error + (int \<times> nat)" where
  "randint a b tp i =
     (if b < a then Inl ValueError
      else Inr (a + int (tp i) mod (b - a + 1), Suc i))"

subsection \<open>The MSB oracle\<close>

text \<open>
  \<^verbatim>\<open>
  def msb(query):
      while True:
          z = randint(1, p-1)
          answer = abs(query - z)
          if answer < p / 2^(k+1):
              break
      return z
  \<close>
  \<open>p / 2^(k+1)\<close> divides two Sage integers and is an exact rational. The loop has no
  bound, so not returning is the value \<open>None\<close>.
\<close>

definition msb_accepts :: "int \<Rightarrow> nat \<Rightarrow> int \<Rightarrow> int \<Rightarrow> bool" where
  "msb_accepts p k query z \<longleftrightarrow>
     (let answer = \<bar>query - z\<bar> in (of_int answer :: rat) < of_int p / 2 ^ (k + 1))"

partial_function (option) msb ::
  "int \<Rightarrow> nat \<Rightarrow> tape \<Rightarrow> int \<Rightarrow> nat \<Rightarrow> (error + (int \<times> nat)) option" where
  "msb p k tp query i =
     (case randint 1 (p - 1) tp i of
        Inl e \<Rightarrow> Some (Inl e)
      | Inr (z, i') \<Rightarrow>
          if msb_accepts p k query z then Some (Inr (z, i'))
          else msb p k tp query i')"

declare msb.simps [code]

text \<open>
  \<^verbatim>\<open>
  def create_oracle(alpha):
      alpha = alpha
      def oracle():
          random_t = randint(1, p-1)
          return random_t, msb((alpha * random_t) % p)
      return oracle
  \<close>
  The closure returned for \<open>alpha\<close> is the function \<open>create_oracle p k alpha\<close> of
  the random source; one call of it is one oracle query.
\<close>

definition create_oracle ::
  "int \<Rightarrow> nat \<Rightarrow> int \<Rightarrow> tape \<Rightarrow> nat \<Rightarrow> (error + ((int \<times> int) \<times> nat)) option" where
  "create_oracle p k alpha tp i =
     (case randint 1 (p - 1) tp i of
        Inl e \<Rightarrow> Some (Inl e)
      | Inr (random_t, i') \<Rightarrow>
          (case msb p k tp ((alpha * random_t) mod p) i' of
             None \<Rightarrow> None
           | Some (Inl e) \<Rightarrow> Some (Inl e)
           | Some (Inr (z, i'')) \<Rightarrow> Some (Inr ((random_t, z), i''))))"

subsection \<open>Vectors and matrices over the rationals\<close>

text \<open>
  A Sage vector over \<open>QQ\<close> is a list of rationals, a matrix the list of its rows.
  \<open>Matrix (QQ, rows)\<close> refuses rows of unequal length, so every matrix is
  rectangular; arithmetic on vectors of different degree raises \<open>TypeError\<close>, which
  the callers below check before they combine two vectors.
\<close>

type_synonym vec = "rat list"
type_synonym mat = "rat list list"

definition ncols :: "mat \<Rightarrow> nat" where
  "ncols M = (case M of [] \<Rightarrow> 0 | r # _ \<Rightarrow> length r)"

definition is_matrix :: "mat \<Rightarrow> nat \<Rightarrow> bool" where
  "is_matrix M m \<longleftrightarrow> (\<forall>r \<in> set M. length r = m)"

definition Matrix_QQ :: "vec list \<Rightarrow> error + mat" where
  "Matrix_QQ rows = (if is_matrix rows (ncols rows) then Inr rows else Inl ValueError)"

definition row :: "mat \<Rightarrow> nat \<Rightarrow> error + vec" where
  "row M i = (if i < length M then Inr (M ! i) else Inl IndexError)"

definition dot :: "vec \<Rightarrow> vec \<Rightarrow> rat" where
  "dot u v = sum_list (map2 (*) u v)"

definition vsub :: "vec \<Rightarrow> vec \<Rightarrow> vec" where
  "vsub u v = map2 (-) u v"

definition smult :: "rat \<Rightarrow> vec \<Rightarrow> vec" where
  "smult c v = map ((*) c) v"

text \<open>
  \<open>Rational.round ()\<close> rounds to the nearest integer, halves away from zero (Sage's
  default mode).
\<close>

definition round_away :: "rat \<Rightarrow> int" where
  "round_away x = (if x < 0 then - \<lfloor>- x + 1 / 2\<rfloor> else \<lfloor>x + 1 / 2\<rfloor>)"

subsection \<open>The lattice basis\<close>

text \<open>
  \<^verbatim>\<open>
  def build_basis(oracle_inputs):
      basis_vectors = []
      for i in range(d):
          p_vector = [0] * (d+1)
          p_vector[i] = p
          basis_vectors.append(p_vector)
      basis_vectors.append(list(oracle_inputs) + [QQ(1)/QQ(p)])
      return Matrix(QQ, basis_vectors)
  \<close>
  \<open>QQ (1) / QQ (p)\<close> raises \<open>ZeroDivisionError\<close> for \<open>p = 0\<close>.
\<close>

definition p_vector :: "int \<Rightarrow> nat \<Rightarrow> nat \<Rightarrow> vec" where
  "p_vector p d i = (replicate (d + 1) 0)[i := of_int p]"

definition build_basis :: "int \<Rightarrow> nat \<Rightarrow> int list \<Rightarrow> error + mat" where
  "build_basis p d oracle_inputs =
     (let basis_vectors = map (p_vector p d) [0..<d]
      in if p = 0 then Inl ZeroDivisionError
         else Matrix_QQ (basis_vectors @ [map of_int oracle_inputs @ [1 / of_int p]]))"

subsection \<open>Basis reduction\<close>

text \<open>
  The notebook reduces the basis with \<open>basis.LLL ()\<close> and orthogonalises with
  \<open>BL.gram_schmidt ()\<close>; both are methods of Sage's matrix class and not code of
  the notebook. The functions of the notebook below take the reducer as an argument,
  a function from a matrix to a matrix or an error. The reduction that the spec
  describes is modelled here on its own.
\<close>

text \<open>
  Modelled from the spec: the Gram-Schmidt orthogonalisation is not in the notebook.
  Each row loses its projections onto the orthogonal vectors of the rows before it, in
  exact rational arithmetic; \<open>mu\<close> is the projection coefficient, and a zero
  orthogonal vector takes no projection.
\<close>

definition mu :: "vec \<Rightarrow> vec \<Rightarrow> rat" where
  "mu b g = dot b g / dot g g"

definition gs_residual :: "vec \<Rightarrow> vec list \<Rightarrow> vec" where
  "gs_residual b gs = foldl (\<lambda>w g. vsub w (smult (mu b g) g)) b gs"

fun gram_schmidt_acc :: "vec list \<Rightarrow> mat \<Rightarrow> mat" where
  "gram_schmidt_acc gs [] = gs"
| "gram_schmidt_acc gs (b # bs) = gram_schmidt_acc (gs @ [gs_residual b gs]) bs"

definition gram_schmidt :: "mat \<Rightarrow> mat" where
  "gram_schmidt B = gram_schmidt_acc [] B"

text \<open>
  Modelled from the spec: the reduction itself is not in the notebook. One pass
  orthogonalises the current rows, size-reduces every row against the rows before it
  (subtracting the nearest-integer multiple of each, nearest first), and tests the
  Lovasz condition with \<open>\<delta> = 3/4\<close> on the pair \<open>(i, i + 1)\<close>: a pair that violates it
  is swapped and the index steps back, otherwise the index advances. The reduction ends
  when the index has passed every adjacent pair. The number of passes is capped at a
  safety factor times the square of the dimension; a pass beyond the cap is the error
  \<open>ReductionNonTermination\<close>. The safety factor is an argument.
\<close>

fun reduce_row :: "mat \<Rightarrow> mat \<Rightarrow> nat \<Rightarrow> nat list \<Rightarrow> mat" where
  "reduce_row B G i [] = B"
| "reduce_row B G i (j # js) =
     reduce_row (B[i := vsub (B ! i) (smult (of_int (round_away (mu (B ! i) (G ! j)))) (B ! j))])
       G i js"

definition size_reduce :: "mat \<Rightarrow> mat \<Rightarrow> mat" where
  "size_reduce B G = foldl (\<lambda>B' i. reduce_row B' G i (rev [0..<i])) B [0..<length B]"

definition lovasz :: "mat \<Rightarrow> mat \<Rightarrow> nat \<Rightarrow> bool" where
  "lovasz B G i \<longleftrightarrow>
     (3 / 4 - (mu (B ! (i + 1)) (G ! i))\<^sup>2) * dot (G ! i) (G ! i)
       \<le> dot (G ! (i + 1)) (G ! (i + 1))"

definition swap_rows :: "mat \<Rightarrow> nat \<Rightarrow> mat" where
  "swap_rows B i = B[i := B ! (i + 1), i + 1 := B ! i]"

definition lovasz_step :: "mat \<Rightarrow> mat \<Rightarrow> nat \<Rightarrow> mat \<times> nat" where
  "lovasz_step B1 G i = (if lovasz B1 G i then (B1, i + 1) else (swap_rows B1 i, i - 1))"

definition lll_pass :: "mat \<Rightarrow> nat \<Rightarrow> mat \<times> nat" where
  "lll_pass B i = lovasz_step (size_reduce B (gram_schmidt B)) (gram_schmidt B) i"

fun lll_loop :: "nat \<Rightarrow> mat \<Rightarrow> nat \<Rightarrow> error + mat" where
  "lll_loop 0 B i = (if length B \<le> i + 1 then Inr B else Inl ReductionNonTermination)"
| "lll_loop (Suc fuel) B i =
     (if length B \<le> i + 1 then Inr B
      else case lll_pass B i of (B', i') \<Rightarrow> lll_loop fuel B' i')"

definition iteration_cap :: "nat \<Rightarrow> mat \<Rightarrow> nat" where
  "iteration_cap safety B = safety * (length B)\<^sup>2"

definition LLL :: "nat \<Rightarrow> mat \<Rightarrow> error + mat" where
  "LLL safety B = lll_loop (iteration_cap safety B) B 0"

text \<open>
  Modelled from the spec: the basis that step 4 of the spec calls LLL-reduced. It is
  size-reduced, every projection coefficient of a row on the orthogonal vector of an
  earlier row lying in \<open>[-1/2, 1/2]\<close>, and every pair of neighbouring rows satisfies
  the Lovasz condition; both are taken with the orthogonal basis of the matrix itself.
  \<open>lll_invariant\<close> is what holds of the rows up to the index before every pass.
\<close>

definition size_reduced :: "mat \<Rightarrow> mat \<Rightarrow> bool" where
  "size_reduced B G \<longleftrightarrow> (\<forall>k \<in> {0..<length B}. \<forall>l \<in> {0..<k}. \<bar>mu (B ! k) (G ! l)\<bar> \<le> 1 / 2)"

definition lll_reduced :: "mat \<Rightarrow> bool" where
  "lll_reduced B \<longleftrightarrow>
     (let G = gram_schmidt B
      in size_reduced B G \<and> (\<forall>i \<in> {0..<length B - 1}. lovasz B G i))"

definition lll_invariant :: "mat \<Rightarrow> nat \<Rightarrow> bool" where
  "lll_invariant B i \<longleftrightarrow>
     (let G = gram_schmidt B
      in (\<forall>k \<in> {0..<Suc i}. \<forall>l \<in> {0..<k}. \<bar>mu (B ! k) (G ! l)\<bar> \<le> 1 / 2) \<and>
         (\<forall>j \<in> {0..<i}. lovasz B G j))"

subsection \<open>Babai's nearest plane\<close>

text \<open>
  \<^verbatim>\<open>
  def approximate_closest_vector(basis, v):
      BL = basis.LLL()
      G, _ = BL.gram_schmidt()
      _, n = BL.dimensions()
      small = vector(ZZ, v)
      for i in reversed(range(n)):
          c = QQ(small * G[i]) / QQ(G[i] * G[i])
          c = c.round()
          small -= BL[i] * c
      return (v - small).coefficients()
  \<close>
  \<open>reducer\<close> stands for the method \<open>LLL\<close>. The loop and the final subtraction are
  \<open>nearest_plane\<close>, a function of the reduced basis, the orthogonal basis and the
  target. \<open>n\<close> is the number of columns; \<open>G[i]\<close>
  and \<open>BL[i]\<close> raise \<open>IndexError\<close> past the last row, and a zero \<open>G[i]\<close> makes the
  quotient raise \<open>ZeroDivisionError\<close>. \<open>coefficients ()\<close> is the method that a
  Sage vector has from the category of modules with basis: the list of its nonzero
  coordinates, in the order of their positions.
\<close>

definition coefficients :: "vec \<Rightarrow> rat list" where
  "coefficients w = filter (\<lambda>x. x \<noteq> 0) w"

fun nearest_plane_loop :: "mat \<Rightarrow> mat \<Rightarrow> nat list \<Rightarrow> vec \<Rightarrow> error + vec" where
  "nearest_plane_loop BL G [] small = Inr small"
| "nearest_plane_loop BL G (i # is) small =
     (case row G i of
        Inl e \<Rightarrow> Inl e
      | Inr g \<Rightarrow>
          if length g \<noteq> length small then Inl TypeError
          else if dot g g = 0 then Inl ZeroDivisionError
          else let c = round_away (dot small g / dot g g)
               in (case row BL i of
                     Inl e \<Rightarrow> Inl e
                   | Inr b \<Rightarrow>
                       if length b \<noteq> length small then Inl TypeError
                       else nearest_plane_loop BL G is (vsub small (smult (of_int c) b))))"

definition nearest_plane :: "mat \<Rightarrow> mat \<Rightarrow> int list \<Rightarrow> error + vec" where
  "nearest_plane BL G v =
     (let n = ncols BL; small = map of_int v
      in case nearest_plane_loop BL G (rev [0..<n]) small of
           Inl e \<Rightarrow> Inl e
         | Inr small' \<Rightarrow> Inr (coefficients (vsub (map of_int v) small')))"

definition approximate_closest_vector ::
  "(mat \<Rightarrow> error + mat) \<Rightarrow> mat \<Rightarrow> int list \<Rightarrow> error + vec" where
  "approximate_closest_vector reducer basis v =
     (case reducer basis of
        Inl e \<Rightarrow> Inl e
      | Inr BL \<Rightarrow> nearest_plane BL (gram_schmidt BL) v)"

text \<open>
  The integers \<open>c\<close> that the loop computes, in the order of the rows it visits. The
  notebook does not keep them; the list states what the returned vector is made of.
\<close>

fun chosen_coefficients :: "mat \<Rightarrow> mat \<Rightarrow> nat list \<Rightarrow> vec \<Rightarrow> int list" where
  "chosen_coefficients BL G [] small = []"
| "chosen_coefficients BL G (i # is) small =
     (let g = G ! i; c = round_away (dot small g / dot g g)
      in c # chosen_coefficients BL G is (vsub small (smult (of_int c) (BL ! i))))"

subsection \<open>Recovering the scalar\<close>

text \<open>
  \<^verbatim>\<open>
  recovered_alpha = (v[-1] * p) % p
  assert recovered_alpha == alpha
  \<close>
  \<open>v[-1] * p\<close> is a Sage rational. Its remainder by an integer \<open>m\<close> is the numerator
  times the inverse of the denominator, all modulo \<open>m\<close>; \<open>inverse_mod\<close> raises
  \<open>ZeroDivisionError\<close> when the denominator has no inverse, and so does a zero
  modulus.
\<close>

definition inverse_mod :: "int \<Rightarrow> int \<Rightarrow> error + int" where
  "inverse_mod a m =
     (case find (\<lambda>x. (a * x) mod m = 1 mod m) [0..m - 1] of
        None \<Rightarrow> Inl ZeroDivisionError
      | Some x \<Rightarrow> Inr x)"

definition rational_mod :: "rat \<Rightarrow> int \<Rightarrow> error + int" where
  "rational_mod x m =
     (if m = 0 then Inl ZeroDivisionError
      else let (n, d) = quotient_of x
           in case inverse_mod (d mod m) m of
                Inl e \<Rightarrow> Inl e
              | Inr d' \<Rightarrow> Inr (((n mod m) * d') mod m))"

definition recovered_alpha :: "vec \<Rightarrow> int \<Rightarrow> error + int" where
  "recovered_alpha v p =
     (if v = [] then Inl IndexError else rational_mod (last v * of_int p) p)"

subsection \<open>The whole run\<close>

text \<open>
  \<^verbatim>\<open>
  alpha = randint(1, p-1)
  oracle = create_oracle(alpha)
  inputs, answers = zip(*[ oracle() for _ in range(d) ])
  lattice = build_basis(inputs)
  u = vector(ZZ, list(answers) + [0])
  v = approximate_closest_vector(lattice, u)
  recovered_alpha = (v[-1] * p) % p
  assert recovered_alpha == alpha
  \<close>
  Unpacking \<open>zip ()\<close> of no queries into two names raises \<open>ValueError\<close>. \<open>solve\<close> is
  the run up to the line that computes \<open>recovered_alpha\<close>: it returns the hidden
  scalar, the recovered candidate and the position of the random source. \<open>pipeline\<close>
  adds the assertion.
\<close>

fun queries ::
  "nat \<Rightarrow> (tape \<Rightarrow> nat \<Rightarrow> (error + ((int \<times> int) \<times> nat)) option) \<Rightarrow> tape \<Rightarrow> nat
     \<Rightarrow> (error + ((int \<times> int) list \<times> nat)) option" where
  "queries 0 orc tp i = Some (Inr ([], i))"
| "queries (Suc m) orc tp i =
     (case orc tp i of
        None \<Rightarrow> None
      | Some (Inl e) \<Rightarrow> Some (Inl e)
      | Some (Inr (q, i')) \<Rightarrow>
          (case queries m orc tp i' of
             None \<Rightarrow> None
           | Some (Inl e) \<Rightarrow> Some (Inl e)
           | Some (Inr (qs, i'')) \<Rightarrow> Some (Inr (q # qs, i''))))"

definition solve ::
  "int \<Rightarrow> nat \<Rightarrow> nat \<Rightarrow> (mat \<Rightarrow> error + mat) \<Rightarrow> tape \<Rightarrow> nat
     \<Rightarrow> (error + (int \<times> int \<times> nat)) option" where
  "solve p k d reducer tp i =
     (case randint 1 (p - 1) tp i of
        Inl e \<Rightarrow> Some (Inl e)
      | Inr (alpha, i1) \<Rightarrow>
          (case queries d (create_oracle p k alpha) tp i1 of
             None \<Rightarrow> None
           | Some (Inl e) \<Rightarrow> Some (Inl e)
           | Some (Inr (qs, i2)) \<Rightarrow>
               if qs = [] then Some (Inl ValueError)
               else let inputs = map fst qs; answers = map snd qs
                    in (case build_basis p d inputs of
                          Inl e \<Rightarrow> Some (Inl e)
                        | Inr lattice \<Rightarrow>
                            let u = answers @ [0]
                            in (case approximate_closest_vector reducer lattice u of
                                  Inl e \<Rightarrow> Some (Inl e)
                                | Inr v \<Rightarrow>
                                    (case recovered_alpha v p of
                                       Inl e \<Rightarrow> Some (Inl e)
                                     | Inr r \<Rightarrow> Some (Inr (alpha, r, i2)))))))"

definition pipeline ::
  "int \<Rightarrow> nat \<Rightarrow> nat \<Rightarrow> (mat \<Rightarrow> error + mat) \<Rightarrow> tape \<Rightarrow> nat
     \<Rightarrow> (error + (int \<times> nat)) option" where
  "pipeline p k d reducer tp i =
     (case solve p k d reducer tp i of
        None \<Rightarrow> None
      | Some (Inl e) \<Rightarrow> Some (Inl e)
      | Some (Inr (alpha, r, i2)) \<Rightarrow>
          if r = alpha then Some (Inr (r, i2)) else Some (Inl AssertionError))"

subsection \<open>Runs of the nearest-plane loop\<close>

text \<open>
  The same loop as a relation between the state before and the outcome of a run, one
  rule for each way an iteration can end.
\<close>

inductive nearest_plane_steps :: "mat \<Rightarrow> mat \<Rightarrow> nat list \<Rightarrow> vec \<Rightarrow> error + vec \<Rightarrow> bool" where
  finished: "nearest_plane_steps BL G [] small (Inr small)"
| no_G_row: "length G \<le> i \<Longrightarrow> nearest_plane_steps BL G (i # is) small (Inl IndexError)"
| degree_G: "i < length G \<Longrightarrow> length (G ! i) \<noteq> length small
     \<Longrightarrow> nearest_plane_steps BL G (i # is) small (Inl TypeError)"
| zero_G: "i < length G \<Longrightarrow> length (G ! i) = length small \<Longrightarrow> dot (G ! i) (G ! i) = 0
     \<Longrightarrow> nearest_plane_steps BL G (i # is) small (Inl ZeroDivisionError)"
| no_BL_row: "i < length G \<Longrightarrow> length (G ! i) = length small \<Longrightarrow> dot (G ! i) (G ! i) \<noteq> 0
     \<Longrightarrow> length BL \<le> i
     \<Longrightarrow> nearest_plane_steps BL G (i # is) small (Inl IndexError)"
| degree_BL: "i < length G \<Longrightarrow> length (G ! i) = length small \<Longrightarrow> dot (G ! i) (G ! i) \<noteq> 0
     \<Longrightarrow> i < length BL \<Longrightarrow> length (BL ! i) \<noteq> length small
     \<Longrightarrow> nearest_plane_steps BL G (i # is) small (Inl TypeError)"
| iteration: "i < length G \<Longrightarrow> length (G ! i) = length small \<Longrightarrow> dot (G ! i) (G ! i) \<noteq> 0
     \<Longrightarrow> i < length BL \<Longrightarrow> length (BL ! i) = length small
     \<Longrightarrow> c = round_away (dot small (G ! i) / dot (G ! i) (G ! i))
     \<Longrightarrow> nearest_plane_steps BL G is (vsub small (smult (of_int c) (BL ! i))) r
     \<Longrightarrow> nearest_plane_steps BL G (i # is) small r"

code_pred nearest_plane_steps .

inductive nearest_plane_run :: "mat \<Rightarrow> mat \<Rightarrow> int list \<Rightarrow> error + vec \<Rightarrow> bool" where
  raised: "nearest_plane_steps BL G (rev [0..<ncols BL]) (map of_int v) (Inl e)
     \<Longrightarrow> nearest_plane_run BL G v (Inl e)"
| returned: "nearest_plane_steps BL G (rev [0..<ncols BL]) (map of_int v) (Inr small)
     \<Longrightarrow> nearest_plane_run BL G v (Inr (coefficients (vsub (map of_int v) small)))"

code_pred nearest_plane_run .

subsection \<open>Lattices\<close>

text \<open>
  The lattice of a matrix with rows of length \<open>m\<close> is the set of the integer
  combinations of its rows. Two matrices span the same lattice when every row of each
  is an integer combination of the rows of the other.
\<close>

definition combination :: "(nat \<Rightarrow> int) \<Rightarrow> mat \<Rightarrow> nat \<Rightarrow> rat" where
  "combination c B j = (\<Sum>i<length B. of_int (c i) * B ! i ! j)"

definition in_lattice :: "nat \<Rightarrow> mat \<Rightarrow> vec \<Rightarrow> bool" where
  "in_lattice m B v \<longleftrightarrow> length v = m \<and> (\<exists>c. \<forall>j<m. v ! j = combination c B j)"

definition sublattice :: "nat \<Rightarrow> mat \<Rightarrow> mat \<Rightarrow> bool" where
  "sublattice m B' B \<longleftrightarrow> (\<forall>r \<in> set B'. in_lattice m B r)"

definition same_lattice :: "nat \<Rightarrow> mat \<Rightarrow> mat \<Rightarrow> bool" where
  "same_lattice m B B' \<longleftrightarrow> sublattice m B B' \<and> sublattice m B' B"

text \<open>
  Modelled from the spec: the number of passes that the capped reduction makes before
  it returns or gives up.
\<close>

fun lll_passes :: "nat \<Rightarrow> mat \<Rightarrow> nat \<Rightarrow> nat" where
  "lll_passes 0 B i = 0"
| "lll_passes (Suc fuel) B i =
     (if length B \<le> i + 1 then 0
      else case lll_pass B i of (B', i') \<Rightarrow> Suc (lll_passes fuel B' i'))"

subsection \<open>Concrete random sources\<close>

text \<open>
  Tapes for running the model on concrete inputs. The first replays the first query of
  the notebook's recorded run (\<open>t = 48551\<close>, answer \<open>18059\<close>).
\<close>

definition notebook_tape :: tape where
  "notebook_tape i = (if i = 0 then 48550 else 18058)"

definition counting_tape :: tape where
  "counting_tape i = i"

definition stuck_tape :: tape where
  "stuck_tape i = 1"

definition offset_tape :: tape where
  "offset_tape i = i + 2"

text \<open>
  Two runs at \<open>p = 5\<close>, \<open>k = 0\<close>, \<open>d = 2\<close> with hidden scalar \<open>2\<close> and inputs \<open>1\<close> and
  \<open>4\<close>: the first tape makes both answers \<open>4\<close>, the second makes both answers \<open>1\<close>.
\<close>

definition high_tape :: tape where
  "high_tape i = (if i = 0 then 1 else if i = 1 then 0 else 3)"

definition low_tape :: tape where
  "low_tape i = (if i = 0 then 1 else if i = 3 then 3 else 0)"

section \<open>The oracle\<close>

lemma randint_draw: "2 \<le> p \<Longrightarrow> randint 1 (p - 1) tp i = Inr (draw p tp i, Suc i)"
  by (simp add: randint_def draw_def)

lemma randint_empty: "p < 2 \<Longrightarrow> randint 1 (p - 1) tp i = Inl ValueError"
  by (simp add: randint_def)

lemma draw_range: "2 \<le> p \<Longrightarrow> 1 \<le> draw p tp j \<and> draw p tp j \<le> p - 1"
  unfolding draw_def
  using pos_mod_bound[of "p - 1" "int (tp j)"] pos_mod_sign[of "p - 1" "int (tp j)"]
  by linarith

text \<open>
  What \<open>msb\<close> returns when it returns: the first draw at or after the current
  position that passes the test, or the \<open>ValueError\<close> of an empty range.
\<close>

lemma msb_Some:
  assumes "msb p k tp query i = Some r"
  shows "(p < 2 \<and> r = Inl ValueError) \<or>
         (2 \<le> p \<and> (\<exists>j\<ge>i. r = Inr (draw p tp j, Suc j) \<and> msb_accepts p k query (draw p tp j) \<and>
                  (\<forall>l. i \<le> l \<and> l < j \<longrightarrow> \<not> msb_accepts p k query (draw p tp l))))"
proof (rule msb.raw_induct[where P = "\<lambda>p k tp query i r. (p < 2 \<and> r = Inl ValueError) \<or>
         (2 \<le> p \<and> (\<exists>j\<ge>i. r = Inr (draw p tp j, Suc j) \<and> msb_accepts p k query (draw p tp j) \<and>
                  (\<forall>l. i \<le> l \<and> l < j \<longrightarrow> \<not> msb_accepts p k query (draw p tp l))))", OF _ assms])
  fix f p k tp query i r
  assume IH: "\<And>p k tp query i r. f p k tp query i = Some r \<Longrightarrow> (p < 2 \<and> r = Inl ValueError) \<or>
         (2 \<le> p \<and> (\<exists>j\<ge>i. r = Inr (draw p tp j, Suc j) \<and> msb_accepts p k query (draw p tp j) \<and>
                  (\<forall>l. i \<le> l \<and> l < j \<longrightarrow> \<not> msb_accepts p k query (draw p tp l))))"
    and step: "(case randint 1 (p - 1) tp i of Inl e \<Rightarrow> Some (Inl e)
      | Inr (z, i') \<Rightarrow> if msb_accepts p k query z then Some (Inr (z, i')) else f p k tp query i') = Some r"
  show "(p < 2 \<and> r = Inl ValueError) \<or>
         (2 \<le> p \<and> (\<exists>j\<ge>i. r = Inr (draw p tp j, Suc j) \<and> msb_accepts p k query (draw p tp j) \<and>
                  (\<forall>l. i \<le> l \<and> l < j \<longrightarrow> \<not> msb_accepts p k query (draw p tp l))))"
  proof (cases "p < 2")
    case True
    with step show ?thesis by (simp add: randint_empty)
  next
    case False
    then have p2: "2 \<le> p" by simp
    show ?thesis
    proof (cases "msb_accepts p k query (draw p tp i)")
      case True
      with step p2 have "r = Inr (draw p tp i, Suc i)" by (simp add: randint_draw)
      with True p2 show ?thesis by auto
    next
      case False
      with step p2 have "f p k tp query (Suc i) = Some r" by (simp add: randint_draw)
      from IH[OF this] p2 obtain j where j: "Suc i \<le> j" "r = Inr (draw p tp j, Suc j)"
        "msb_accepts p k query (draw p tp j)"
        "\<forall>l. Suc i \<le> l \<and> l < j \<longrightarrow> \<not> msb_accepts p k query (draw p tp l)" by auto
      have "\<forall>l. i \<le> l \<and> l < j \<longrightarrow> \<not> msb_accepts p k query (draw p tp l)"
        using j(4) False by (metis Suc_leI le_neq_implies_less)
      with j p2 show ?thesis by (intro disjI2 conjI exI[of _ j]) auto
    qed
  qed
qed

text \<open>The loop returns as soon as the tape holds a draw that passes the test.\<close>

lemma msb_returns:
  assumes "2 \<le> p" "i \<le> j" "msb_accepts p k query (draw p tp j)"
  shows "\<exists>z j'. msb p k tp query i = Some (Inr (z, j'))"
  using assms(2)
proof (induction "j - i" arbitrary: i)
  case 0
  then have "i = j" by simp
  with assms show ?case by (subst msb.simps) (simp add: randint_draw)
next
  case (Suc n)
  show ?case
  proof (cases "msb_accepts p k query (draw p tp i)")
    case True
    with assms(1) show ?thesis by (subst msb.simps) (simp add: randint_draw)
  next
    case False
    from Suc have "n = j - Suc i" "Suc i \<le> j" by auto
    from Suc(1)[OF this] obtain z j' where "msb p k tp query (Suc i) = Some (Inr (z, j'))" by blast
    with False assms(1) show ?thesis by (subst msb.simps) (simp add: randint_draw)
  qed
qed

text \<open>It never returns when no later draw passes.\<close>

lemma msb_diverges:
  assumes "2 \<le> p" "\<forall>j\<ge>i. \<not> msb_accepts p k query (draw p tp j)"
  shows "msb p k tp query i = None"
proof (cases "msb p k tp query i")
  case None
  then show ?thesis .
next
  case (Some r)
  from msb_Some[OF this] assms show ?thesis by auto
qed

lemma msb_accepts_iff:
  "msb_accepts p k query z \<longleftrightarrow> \<bar>of_int (query - z)\<bar> < (of_int p :: rat) / 2 ^ (k + 1)"
  by (simp add: msb_accepts_def)

lemma create_oracle_Some:
  assumes "create_oracle p k alpha tp i = Some (Inr ((t, a), j))"
  shows "2 \<le> p \<and> t = draw p tp i \<and> msb p k tp ((alpha * t) mod p) (Suc i) = Some (Inr (a, j))"
proof (cases "p < 2")
  case True
  with assms show ?thesis by (simp add: create_oracle_def randint_empty)
next
  case False
  with assms show ?thesis
    by (auto simp: create_oracle_def randint_draw split: option.splits sum.splits)
qed

text \<open>
  C1. Every pair \<open>(t, a)\<close> that an oracle query returns satisfies
  \<open>|(alpha * t mod p) - a| < p / 2^(k+1)\<close>, the comparison being one of exact
  rationals.
\<close>

theorem oracle_bound:
  assumes "create_oracle p k alpha tp i = Some (Inr ((t, a), j))"
  shows "\<bar>of_int ((alpha * t) mod p) - of_int a\<bar> < (of_int p :: rat) / 2 ^ (k + 1)"
proof -
  have m: "msb p k tp ((alpha * t) mod p) (Suc i) = Some (Inr (a, j))"
    using create_oracle_Some[OF assms] by blast
  from msb_Some[OF m] have "msb_accepts p k ((alpha * t) mod p) a" by auto
  then show ?thesis by (simp add: msb_accepts_iff)
qed

theorem oracle_bound_witness:
  "create_oracle 65537 10 10262 notebook_tape 0 = Some (Inr ((48551, 18059), 2)) \<and>
   \<bar>of_int ((10262 * 48551) mod 65537) - of_int 18059\<bar> < (of_int 65537 :: rat) / 2 ^ (10 + 1)"
proof -
  have run: "create_oracle 65537 10 10262 notebook_tape 0 = Some (Inr ((48551, 18059), 2))"
    unfolding create_oracle_def
    by (subst msb.simps) (simp add: randint_def notebook_tape_def msb_accepts_def)
  from oracle_bound[OF run] run show ?thesis by simp
qed

text \<open>A query returns whenever the tape holds, after the draw of \<open>t\<close>, a draw that passes.\<close>

lemma create_oracle_returns:
  assumes "2 \<le> p" "i < j" "msb_accepts p k ((alpha * draw p tp i) mod p) (draw p tp j)"
  shows "\<exists>a j'. create_oracle p k alpha tp i = Some (Inr ((draw p tp i, a), j'))"
proof -
  from assms(2) have "Suc i \<le> j" by simp
  from msb_returns[OF assms(1) this assms(3)] obtain z j'
    where "msb p k tp ((alpha * draw p tp i) mod p) (Suc i) = Some (Inr (z, j'))" by blast
  with assms(1) show ?thesis by (simp add: create_oracle_def randint_draw)
qed

subsection \<open>A leak parameter at or above the bit length\<close>

text \<open>
  With \<open>p \<le> 2 ^ k\<close> the bound \<open>p / 2^(k+1)\<close> is at most one half, so the only
  candidate that passes the test is the query itself.
\<close>

lemma msb_accepts_full_leak:
  assumes "0 < p" "p \<le> 2 ^ k"
  shows "msb_accepts p k query z \<longleftrightarrow> z = query"
proof
  assume acc: "msb_accepts p k query z"
  show "z = query"
  proof (rule ccontr)
    assume "z \<noteq> query"
    then have "1 \<le> \<bar>query - z\<bar>" by simp
    then have a: "(1::rat) \<le> \<bar>of_int (query - z)\<bar>"
      by (metis of_int_1 of_int_abs of_int_le_iff)
    have "(of_int p :: rat) \<le> 2 ^ k"
      using assms(2) by (metis of_int_le_iff of_int_numeral of_int_power)
    then have b: "(of_int p :: rat) / 2 ^ (k + 1) \<le> 1 / 2"
      by (simp add: field_simps)
    from acc have c: "\<bar>of_int (query - z)\<bar> < (of_int p :: rat) / 2 ^ (k + 1)"
      unfolding msb_accepts_iff .
    from a b c show False by linarith
  qed
next
  assume "z = query"
  with assms(1) show "msb_accepts p k query z" by (simp add: msb_accepts_iff)
qed

lemma bit_length_bound:
  assumes "2 \<le> p" "ceillog2 (nat p) \<le> k"
  shows "p \<le> 2 ^ k"
proof -
  from assms(1) have "0 < nat p" by simp
  from assms(2) ceillog2_le_iff[OF this] have "nat p \<le> 2 ^ k" by simp
  then have "int (nat p) \<le> int (2 ^ k)" by (simp only: of_nat_le_iff)
  with assms(1) show ?thesis by simp
qed

lemma create_oracle_unfold:
  assumes "2 \<le> p"
  shows "create_oracle p k alpha tp i =
      (case msb p k tp ((alpha * draw p tp i) mod p) (Suc i) of
         None \<Rightarrow> None
       | Some (Inl e) \<Rightarrow> Some (Inl e)
       | Some (Inr (z, i'')) \<Rightarrow> Some (Inr ((draw p tp i, z), i'')))"
  using assms by (simp add: create_oracle_def randint_draw)

lemma create_oracle_no_error:
  assumes "2 \<le> p"
  shows "create_oracle p k alpha tp i \<noteq> Some (Inl e)"
proof
  assume "create_oracle p k alpha tp i = Some (Inl e)"
  then have "msb p k tp ((alpha * draw p tp i) mod p) (Suc i) = Some (Inl e)"
    by (auto simp: create_oracle_unfold[OF assms] split: option.splits sum.splits)
  from msb_Some[OF this] assms show False by auto
qed

lemma full_leak_exact:
  assumes "2 \<le> p" "p \<le> 2 ^ k"
    and "create_oracle p k alpha tp i = Some (Inr ((t, a), j))"
  shows "a = (alpha * t) mod p"
proof -
  have m: "msb p k tp ((alpha * t) mod p) (Suc i) = Some (Inr (a, j))"
    using create_oracle_Some[OF assms(3)] by blast
  from msb_Some[OF m] have "msb_accepts p k ((alpha * t) mod p) a" by auto
  with assms(1,2) show ?thesis by (simp add: msb_accepts_full_leak)
qed

lemma full_leak_diverges_iff:
  assumes "2 \<le> p" "p \<le> 2 ^ k"
  shows "create_oracle p k alpha tp i = None \<longleftrightarrow>
           (\<forall>j>i. draw p tp j \<noteq> (alpha * draw p tp i) mod p)"
proof
  assume none: "create_oracle p k alpha tp i = None"
  show "\<forall>j>i. draw p tp j \<noteq> (alpha * draw p tp i) mod p"
  proof (intro allI impI notI)
    fix j assume j: "i < j" "draw p tp j = (alpha * draw p tp i) mod p"
    then have "msb_accepts p k ((alpha * draw p tp i) mod p) (draw p tp j)"
      using assms by (simp add: msb_accepts_full_leak)
    from create_oracle_returns[OF assms(1) j(1) this] none show False by auto
  qed
next
  assume never: "\<forall>j>i. draw p tp j \<noteq> (alpha * draw p tp i) mod p"
  have "msb p k tp ((alpha * draw p tp i) mod p) (Suc i) = None"
  proof (rule msb_diverges[OF assms(1)], intro allI impI)
    fix j assume "Suc i \<le> j"
    with never have "draw p tp j \<noteq> (alpha * draw p tp i) mod p" by auto
    with assms show "\<not> msb_accepts p k ((alpha * draw p tp i) mod p) (draw p tp j)"
      by (simp add: msb_accepts_full_leak)
  qed
  then show "create_oracle p k alpha tp i = None"
    by (simp add: create_oracle_unfold[OF assms(1)])
qed

lemma bit_length_5: "ceillog2 (nat 5) \<le> 3"
  by (simp add: ceillog2_le_iff)

lemma full_leak_run: "create_oracle 5 3 2 counting_tape 0 = Some (Inr ((1, 2), 2))"
  unfolding create_oracle_def
  by (subst msb.simps) (simp add: randint_def counting_tape_def msb_accepts_def)

text \<open>
  C6, as the notebook has it. For \<open>k\<close> at or above the bit length of \<open>p\<close> a query
  raises nothing: it answers \<open>alpha * t mod p\<close> itself once the random source draws
  that value, and runs forever when the source never does.
\<close>

theorem oracle_full_leak:
  assumes "2 \<le> p" and "ceillog2 (nat p) \<le> k"
  shows "(\<forall>e. create_oracle p k alpha tp i \<noteq> Some (Inl e)) \<and>
         (\<forall>t a j. create_oracle p k alpha tp i = Some (Inr ((t, a), j)) \<longrightarrow> a = (alpha * t) mod p) \<and>
         (create_oracle p k alpha tp i = None \<longleftrightarrow>
            (\<forall>j>i. draw p tp j \<noteq> (alpha * draw p tp i) mod p))"
proof -
  from assms have pk: "p \<le> 2 ^ k" by (rule bit_length_bound)
  show ?thesis
    using create_oracle_no_error[OF assms(1)] full_leak_exact[OF assms(1) pk]
      full_leak_diverges_iff[OF assms(1) pk]
    by blast
qed

theorem oracle_full_leak_witness:
  "(2::int) \<le> 5 \<and> ceillog2 (nat 5) \<le> 3 \<and>
   create_oracle 5 3 2 counting_tape 0 = Some (Inr ((1, 2), 2)) \<and> (2::int) = (2 * 1) mod 5 \<and>
   create_oracle 5 3 2 counting_tape 0 \<noteq> None \<and>
   \<not> (\<forall>j>0. draw 5 counting_tape j \<noteq> (2 * draw 5 counting_tape 0) mod 5)"
proof -
  have p: "(2::int) \<le> 5" by simp
  from oracle_full_leak[OF p bit_length_5, of 2 counting_tape 0] full_leak_run bit_length_5
  show ?thesis by simp
qed

text \<open>
  The claim as the spec states it fails: at \<open>p = 5\<close>, \<open>k = 3\<close> one query returns an
  ordinary answer, and another never returns.
\<close>

theorem oracle_full_leak_counterexample:
  "ceillog2 (nat 5) \<le> 3 \<and>
   create_oracle 5 3 2 counting_tape 0 = Some (Inr ((1, 2), 2)) \<and>
   create_oracle 5 3 2 stuck_tape 0 = None"
proof -
  have "(2::int) \<le> 5" "(5::int) \<le> 2 ^ 3" by simp_all
  from full_leak_diverges_iff[OF this, of 2 stuck_tape 0]
  have "create_oracle 5 3 2 stuck_tape 0 = None"
    by (simp add: draw_def stuck_tape_def)
  with bit_length_5 full_leak_run show ?thesis by simp
qed

section \<open>The basis builder\<close>

lemma p_vector_length: "length (p_vector p d i) = d + 1"
  by (simp add: p_vector_def del: replicate.simps)

lemma p_vector_nth:
  "i < d \<Longrightarrow> j < d + 1 \<Longrightarrow> p_vector p d i ! j = (if j = i then of_int p else 0)"
  by (simp add: p_vector_def nth_list_update del: replicate.simps)

lemma ncols_Cons: "ncols (r # rs) = length r"
  by (simp add: ncols_def)

lemma build_basis_rows:
  assumes "p \<noteq> 0" "length oracle_inputs = d"
  shows "build_basis p d oracle_inputs =
           Inr (map (p_vector p d) [0..<d] @ [map of_int oracle_inputs @ [1 / of_int p]])"
proof -
  let ?rows = "map (p_vector p d) [0..<d] @ [map of_int oracle_inputs @ [1 / of_int p]]"
  have all: "\<forall>r \<in> set ?rows. length r = d + 1"
    using assms(2) by (auto simp: p_vector_length)
  have "ncols ?rows = d + 1"
  proof (cases d)
    case 0
    with assms(2) show ?thesis by (simp add: ncols_def)
  next
    case (Suc m)
    then have "[0..<d] = 0 # [1..<d]" by (simp add: upt_rec)
    then show ?thesis by (simp add: ncols_def p_vector_length)
  qed
  with all have "is_matrix ?rows (ncols ?rows)" by (simp add: is_matrix_def)
  with assms(1) show ?thesis by (simp add: build_basis_def Matrix_QQ_def Let_def)
qed

text \<open>
  C2. For a nonzero \<open>p\<close> (so for every prime) and \<open>d\<close> query inputs the builder
  returns a matrix of \<open>d + 1\<close> rows of length \<open>d + 1\<close>; row \<open>i < d\<close> has \<open>p\<close> at
  column \<open>i\<close> and zero elsewhere, and the last row is the inputs followed by the exact
  rational \<open>1 / p\<close>.
\<close>

theorem build_basis_shape:
  assumes "p \<noteq> 0" "length oracle_inputs = d"
  shows "\<exists>M. build_basis p d oracle_inputs = Inr M \<and> length M = d + 1 \<and>
           (\<forall>r \<in> set M. length r = d + 1) \<and>
           (\<forall>i<d. \<forall>j<d + 1. M ! i ! j = (if j = i then of_int p else 0)) \<and>
           M ! d = map of_int oracle_inputs @ [1 / of_int p] \<and>
           last (M ! d) = 1 / of_int p"
proof -
  let ?M = "map (p_vector p d) [0..<d] @ [map of_int oracle_inputs @ [1 / of_int p]]"
  have 1: "build_basis p d oracle_inputs = Inr ?M" by (rule build_basis_rows[OF assms])
  have 2: "length ?M = d + 1" by simp
  have 3: "\<forall>r \<in> set ?M. length r = d + 1" using assms(2) by (auto simp: p_vector_length)
  have 4: "\<forall>i<d. \<forall>j<d + 1. ?M ! i ! j = (if j = i then of_int p else 0)"
    by (simp add: nth_append p_vector_nth)
  have 5: "?M ! d = map of_int oracle_inputs @ [1 / of_int p]"
    by (simp add: nth_append)
  have 6: "last (?M ! d) = 1 / of_int p" by (simp add: nth_append)
  from 1 2 3 4 5 6 show ?thesis by blast
qed

theorem build_basis_shape_witness:
  "(5::int) \<noteq> 0 \<and> length [3, 4 :: int] = 2 \<and>
   (\<exists>M. build_basis 5 2 [3, 4] = Inr M \<and> M = [[5, 0, 0], [0, 5, 0], [3, 4, 1 / 5]] \<and>
        length M = 2 + 1 \<and> last (M ! 2) = 1 / of_int 5)"
proof -
  have h: "(5::int) \<noteq> 0" "length [3, 4 :: int] = 2" by simp_all
  have run: "build_basis 5 2 [3, 4] = Inr [[5, 0, 0], [0, 5, 0], [3, 4, 1 / 5]]"
    by code_simp
  from build_basis_shape[OF h] run h show ?thesis by auto
qed

section \<open>Scalar recovery\<close>

lemma inverse_mod_Some:
  assumes "0 < m" "coprime a m"
  shows "\<exists>x. inverse_mod a m = Inr x \<and> 0 \<le> x \<and> x < m \<and> (a * x) mod m = 1 mod m"
proof -
  from bezout_int[of a m] assms(2) obtain u v where uv: "u * a + v * m = 1" by auto
  let ?x = "u mod m"
  have "(a * ?x) mod m = (a * u) mod m" by (simp add: mod_mult_right_eq)
  also have "a * u = 1 - v * m" using uv by (simp add: algebra_simps)
  also have "(1 - v * m) mod m = 1 mod m" by (metis diff_conv_add_uminus mod_mult_self1 mult_minus_left)
  finally have P: "(a * ?x) mod m = 1 mod m" .
  have "?x \<in> set [0..m - 1]" using assms(1) by simp
  with P have "find (\<lambda>x. (a * x) mod m = 1 mod m) [0..m - 1] \<noteq> None"
    by (auto simp: find_None_iff)
  then obtain y where y: "find (\<lambda>x. (a * x) mod m = 1 mod m) [0..m - 1] = Some y" by auto
  then have "y \<in> set [0..m - 1]" "(a * y) mod m = 1 mod m"
    by (auto simp: find_Some_iff in_set_conv_nth)
  with y show ?thesis by (auto simp: inverse_mod_def)
qed

lemma inverse_mod_None:
  assumes "0 < m" "\<not> coprime a m"
  shows "inverse_mod a m = Inl ZeroDivisionError"
proof -
  have "\<not> (\<exists>x. (a * x) mod m = 1 mod m)"
  proof
    assume "\<exists>x. (a * x) mod m = 1 mod m"
    then obtain x where x: "(a * x) mod m = 1 mod m" by blast
    let ?g = "gcd a m"
    have gm: "?g dvd m" and ga: "?g dvd a" by simp_all
    from ga have "?g dvd a * x" by simp
    with gm have "?g dvd (a * x) mod m" by (simp add: dvd_mod_iff)
    with x have "?g dvd 1 mod m" by simp
    with gm have "?g dvd 1" by (simp add: dvd_mod_iff)
    then have "coprime a m" by (simp add: coprime_iff_gcd_eq_1)
    with assms(2) show False by simp
  qed
  then have "find (\<lambda>x. (a * x) mod m = 1 mod m) [0..m - 1] = None"
    by (auto simp: find_None_iff)
  then show ?thesis by (simp add: inverse_mod_def)
qed

lemma inverse_mod_1:
  assumes "0 < m"
  shows "\<exists>x. inverse_mod (1 mod m) m = Inr x \<and> x mod m = 1 mod m"
proof -
  have "coprime (1 mod m) m" using assms by simp
  from inverse_mod_Some[OF assms this] obtain x where
    x: "inverse_mod (1 mod m) m = Inr x" "((1 mod m) * x) mod m = 1 mod m" by blast
  from x(2) have "x mod m = 1 mod m" by (simp add: mod_mult_left_eq)
  with x(1) show ?thesis by blast
qed

lemma rational_mod_of_int:
  assumes "0 < m"
  shows "rational_mod (of_int n) m = Inr (n mod m)"
proof -
  from inverse_mod_1[OF assms] obtain x where
    x: "inverse_mod (1 mod m) m = Inr x" "x mod m = 1 mod m" by blast
  have "((n mod m) * x) mod m = (n * (x mod m)) mod m"
    by (simp add: mod_mult_left_eq mod_mult_right_eq)
  also have "\<dots> = n mod m" using x(2) by (simp add: mod_mult_right_eq)
  finally show ?thesis using assms x(1) by (simp add: rational_mod_def)
qed

section \<open>Integer combinations of rows\<close>

lemma length_vsub: "length (vsub u v) = min (length u) (length v)"
  by (simp add: vsub_def)

lemma nth_vsub: "j < length u \<Longrightarrow> j < length v \<Longrightarrow> vsub u v ! j = u ! j - v ! j"
  by (simp add: vsub_def)

lemma length_smult: "length (smult c v) = length v"
  by (simp add: smult_def)

lemma nth_smult: "j < length v \<Longrightarrow> smult c v ! j = c * v ! j"
  by (simp add: smult_def)

lemma in_lattice_length: "in_lattice m B v \<Longrightarrow> length v = m"
  by (simp add: in_lattice_def)

lemma in_lattice_row:
  assumes "i < length B" "length (B ! i) = m"
  shows "in_lattice m B (B ! i)"
proof -
  have "\<forall>j<m. B ! i ! j = combination (\<lambda>k. if k = i then 1 else 0) B j"
  proof (intro allI impI)
    fix j
    have "combination (\<lambda>k. if k = i then 1 else 0) B j
            = (\<Sum>k<length B. if k = i then B ! k ! j else 0)"
      unfolding combination_def by (intro sum.cong) auto
    also have "\<dots> = B ! i ! j" using assms(1) by simp
    finally show "B ! i ! j = combination (\<lambda>k. if k = i then 1 else 0) B j" by simp
  qed
  with assms(2) show ?thesis unfolding in_lattice_def by blast
qed

lemma in_lattice_zero:
  assumes "length u = m"
  shows "in_lattice m B (vsub u u)"
proof -
  have "\<forall>j<m. vsub u u ! j = combination (\<lambda>k. 0) B j"
    using assms by (simp add: nth_vsub combination_def)
  with assms show ?thesis unfolding in_lattice_def by (auto simp: length_vsub)
qed

lemma in_lattice_sub_smult:
  assumes "in_lattice m B u" "in_lattice m B v"
  shows "in_lattice m B (vsub u (smult (of_int z) v))"
proof -
  from assms obtain cu cv where lu: "length u = m" and lv: "length v = m"
    and cu: "\<forall>j<m. u ! j = combination cu B j" and cv: "\<forall>j<m. v ! j = combination cv B j"
    unfolding in_lattice_def by blast
  have "\<forall>j<m. vsub u (smult (of_int z) v) ! j = combination (\<lambda>i. cu i - z * cv i) B j"
  proof (intro allI impI)
    fix j assume j: "j < m"
    have "combination (\<lambda>i. cu i - z * cv i) B j = combination cu B j - of_int z * combination cv B j"
      unfolding combination_def by (simp add: sum_subtractf sum_distrib_left algebra_simps)
    with j cu cv lu lv show "vsub u (smult (of_int z) v) ! j = combination (\<lambda>i. cu i - z * cv i) B j"
      by (simp add: nth_vsub nth_smult length_smult)
  qed
  moreover have "length (vsub u (smult (of_int z) v)) = m"
    using lu lv by (simp add: length_vsub length_smult)
  ultimately show ?thesis unfolding in_lattice_def by blast
qed

lemma in_lattice_trans:
  assumes "in_lattice m B' v" "sublattice m B' B"
  shows "in_lattice m B v"
proof -
  from assms(1) obtain c where lv: "length v = m"
    and c: "\<forall>j<m. v ! j = combination c B' j"
    unfolding in_lattice_def by blast
  have "\<forall>k. \<exists>d. k < length B' \<longrightarrow> (\<forall>j<m. B' ! k ! j = combination d B j)"
    using assms(2) unfolding sublattice_def in_lattice_def by (metis nth_mem)
  then obtain D where D: "\<forall>k. k < length B' \<longrightarrow> (\<forall>j<m. B' ! k ! j = combination (D k) B j)"
    by metis
  let ?e = "\<lambda>i. \<Sum>k<length B'. c k * D k i"
  have "\<forall>j<m. v ! j = combination ?e B j"
  proof (intro allI impI)
    fix j assume j: "j < m"
    have "combination ?e B j = (\<Sum>i<length B. \<Sum>k<length B'. of_int (c k) * (of_int (D k i) * B ! i ! j))"
      unfolding combination_def by (simp add: sum_distrib_right mult.assoc)
    also have "\<dots> = (\<Sum>k<length B'. \<Sum>i<length B. of_int (c k) * (of_int (D k i) * B ! i ! j))"
      by (rule sum.swap)
    also have "\<dots> = (\<Sum>k<length B'. of_int (c k) * combination (D k) B j)"
      unfolding combination_def by (simp add: sum_distrib_left)
    also have "\<dots> = (\<Sum>k<length B'. of_int (c k) * B' ! k ! j)"
      using D j by (intro sum.cong) auto
    also have "\<dots> = v ! j" using c j by (simp add: combination_def)
    finally show "v ! j = combination ?e B j" by simp
  qed
  with lv show ?thesis unfolding in_lattice_def by blast
qed

lemma sublattice_trans:
  "sublattice m B'' B' \<Longrightarrow> sublattice m B' B \<Longrightarrow> sublattice m B'' B"
  unfolding sublattice_def using in_lattice_trans[unfolded sublattice_def] by blast

lemma sublattice_refl: "is_matrix B m \<Longrightarrow> sublattice m B B"
  unfolding sublattice_def is_matrix_def by (metis in_lattice_row in_set_conv_nth)

lemma same_lattice_refl: "is_matrix B m \<Longrightarrow> same_lattice m B B"
  by (simp add: same_lattice_def sublattice_refl)

lemma same_lattice_trans:
  "same_lattice m B B' \<Longrightarrow> same_lattice m B' B'' \<Longrightarrow> same_lattice m B B''"
  unfolding same_lattice_def using sublattice_trans by blast

lemma same_lattice_points:
  "same_lattice m B B' \<Longrightarrow> in_lattice m B v \<longleftrightarrow> in_lattice m B' v"
  unfolding same_lattice_def using in_lattice_trans by blast

section \<open>The nearest-plane solver\<close>

lemma loop_step:
  assumes "nearest_plane_loop BL G (i # is) small = Inr small'"
  shows "i < length BL \<and> length (BL ! i) = length small \<and>
         nearest_plane_loop BL G is
           (vsub small (smult (of_int (round_away (dot small (G ! i) / dot (G ! i) (G ! i)))) (BL ! i)))
           = Inr small'"
  using assms by (auto simp: row_def Let_def split: if_splits)

lemma loop_result:
  assumes "nearest_plane_loop BL G is small = Inr small'"
  shows "length small' = length small \<and>
         (\<forall>j<length small. small' ! j =
            small ! j - (\<Sum>(i, c) \<leftarrow> zip is (chosen_coefficients BL G is small). of_int c * BL ! i ! j))"
  using assms
proof (induction "is" arbitrary: small)
  case Nil
  then show ?case by simp
next
  case (Cons i "is")
  let ?c = "round_away (dot small (G ! i) / dot (G ! i) (G ! i))"
  let ?s = "vsub small (smult (of_int ?c) (BL ! i))"
  from loop_step[OF Cons.prems] have i: "i < length BL" "length (BL ! i) = length small"
    and rest: "nearest_plane_loop BL G is ?s = Inr small'" by blast+
  have ls: "length ?s = length small" using i by (simp add: length_vsub length_smult)
  from Cons.IH[OF rest] ls have len: "length small' = length small"
    and el: "\<forall>j<length small. small' ! j =
            ?s ! j - (\<Sum>(i, c) \<leftarrow> zip is (chosen_coefficients BL G is ?s). of_int c * BL ! i ! j)"
    by simp_all
  have "\<forall>j<length small. small' ! j =
            small ! j - (\<Sum>(i, c) \<leftarrow> zip (i # is) (chosen_coefficients BL G (i # is) small). of_int c * BL ! i ! j)"
  proof (intro allI impI)
    fix j assume j: "j < length small"
    with i have "?s ! j = small ! j - of_int ?c * BL ! i ! j"
      by (simp add: nth_vsub nth_smult length_smult)
    with el j show "small' ! j =
            small ! j - (\<Sum>(i, c) \<leftarrow> zip (i # is) (chosen_coefficients BL G (i # is) small). of_int c * BL ! i ! j)"
      by (simp add: Let_def)
  qed
  with len show ?case by blast
qed

lemma vsub_vsub_smult:
  assumes "length v0 = n" "length small = n" "length b = n"
  shows "vsub v0 (vsub small (smult (of_int c) b)) = vsub (vsub v0 small) (smult (of_int (- c)) b)"
  using assms
  by (intro nth_equalityI) (simp_all add: length_vsub length_smult nth_vsub nth_smult)

lemma loop_lattice:
  assumes "nearest_plane_loop BL G is small = Inr small'"
    and "length v0 = length small"
    and "in_lattice (length small) BL (vsub v0 small)"
  shows "in_lattice (length small) BL (vsub v0 small')"
  using assms
proof (induction "is" arbitrary: small)
  case Nil
  then show ?case by simp
next
  case (Cons i "is")
  let ?c = "round_away (dot small (G ! i) / dot (G ! i) (G ! i))"
  let ?s = "vsub small (smult (of_int ?c) (BL ! i))"
  from loop_step[OF Cons.prems(1)] have i: "i < length BL" "length (BL ! i) = length small"
    and rest: "nearest_plane_loop BL G is ?s = Inr small'" by blast+
  have ls: "length ?s = length small" using i by (simp add: length_vsub length_smult)
  have eq: "vsub v0 ?s = vsub (vsub v0 small) (smult (of_int (- ?c)) (BL ! i))"
    using Cons.prems(2) i(2) by (intro vsub_vsub_smult[of _ "length small"]) simp_all
  have "in_lattice (length small) BL (BL ! i)" using i by (rule in_lattice_row)
  from in_lattice_sub_smult[OF Cons.prems(3) this, of "- ?c"]
  have "in_lattice (length small) BL (vsub v0 ?s)"
    unfolding eq .
  with Cons.IH[OF rest] Cons.prems(2) ls show ?case by simp
qed

text \<open>
  The vector \<open>v - small\<close> that the loop leaves is the sum of \<open>c\<close> times row \<open>i\<close> of
  the reduced basis over the rows \<open>i\<close> the loop visited, \<open>c\<close> being the integer the
  loop chose for that row. It is a point of the lattice of the reduced basis, and of
  the lattice of every basis whose lattice holds the rows of the reduced one. What the
  solver returns is the list of the nonzero coordinates of that vector.
\<close>

lemma closest_vector_lattice_point:
  assumes "nearest_plane BL G v = Inr r"
  shows "\<exists>w. r = coefficients w \<and> length w = length v \<and>
         (\<forall>j<length v. w ! j =
            (\<Sum>(i, c) \<leftarrow> zip (rev [0..<ncols BL])
                 (chosen_coefficients BL G (rev [0..<ncols BL]) (map of_int v)). of_int c * BL ! i ! j)) \<and>
         in_lattice (length v) BL w \<and>
         (\<forall>B. sublattice (length v) BL B \<longrightarrow> in_lattice (length v) B w)"
proof -
  let ?is = "rev [0..<ncols BL]" and ?v = "map of_int v :: vec"
  from assms obtain small' where loop: "nearest_plane_loop BL G ?is ?v = Inr small'"
    and r: "r = coefficients (vsub ?v small')"
    by (auto simp: nearest_plane_def Let_def split: sum.splits)
  let ?w = "vsub ?v small'"
  from loop_result[OF loop] have len: "length small' = length v"
    and el: "\<forall>j<length v. small' ! j =
            ?v ! j - (\<Sum>(i, c) \<leftarrow> zip ?is (chosen_coefficients BL G ?is ?v). of_int c * BL ! i ! j)"
    by simp_all
  have 1: "length ?w = length v" using len by (simp add: length_vsub)
  have 2: "\<forall>j<length v. ?w ! j =
            (\<Sum>(i, c) \<leftarrow> zip ?is (chosen_coefficients BL G ?is ?v). of_int c * BL ! i ! j)"
    using len el by (simp add: nth_vsub)
  have "in_lattice (length ?v) BL (vsub ?v ?v)" by (rule in_lattice_zero) simp
  from loop_lattice[OF loop _ this] have 3: "in_lattice (length v) BL ?w" by simp
  from 3 in_lattice_trans have 4: "\<forall>B. sublattice (length v) BL B \<longrightarrow> in_lattice (length v) B ?w"
    by blast
  from r 1 2 3 4 show ?thesis by blast
qed

inductive_cases steps_NilE: "nearest_plane_steps BL G [] small r"
inductive_cases steps_ConsE: "nearest_plane_steps BL G (i # is) small r"

lemma nearest_plane_steps_determ:
  "nearest_plane_steps BL G is small r \<Longrightarrow> nearest_plane_steps BL G is small r' \<Longrightarrow> r' = r"
proof (induction arbitrary: r' rule: nearest_plane_steps.induct)
  case (finished BL G small)
  then show ?case by (auto elim: steps_NilE)
next
  case (no_G_row G i BL "is" small)
  from no_G_row(2) no_G_row(1) show ?case by (auto elim!: steps_ConsE)
next
  case (degree_G i G small BL "is")
  from degree_G(3) degree_G(1,2) show ?case by (auto elim!: steps_ConsE)
next
  case (zero_G i G small BL "is")
  from zero_G(4) zero_G(1-3) show ?case by (auto elim!: steps_ConsE)
next
  case (no_BL_row i G small BL "is")
  from no_BL_row(5) no_BL_row(1-4) show ?case by (auto elim!: steps_ConsE)
next
  case (degree_BL i G small BL "is")
  from degree_BL(6) degree_BL(1-5) show ?case by (auto elim!: steps_ConsE)
next
  case (iteration i G small BL c "is" r)
  from iteration(9) iteration(1-6) iteration(8) show ?case by (auto elim!: steps_ConsE)
qed

lemma nearest_plane_steps_loop:
  "nearest_plane_steps BL G is small (nearest_plane_loop BL G is small)"
proof (induction "is" arbitrary: small)
  case Nil
  show ?case by (simp add: nearest_plane_steps.finished)
next
  case (Cons i "is")
  let ?c = "round_away (dot small (G ! i) / dot (G ! i) (G ! i))"
  consider (a) "length G \<le> i"
    | (b) "i < length G" "length (G ! i) \<noteq> length small"
    | (c) "i < length G" "length (G ! i) = length small" "dot (G ! i) (G ! i) = 0"
    | (d) "i < length G" "length (G ! i) = length small" "dot (G ! i) (G ! i) \<noteq> 0"
          "length BL \<le> i"
    | (e) "i < length G" "length (G ! i) = length small" "dot (G ! i) (G ! i) \<noteq> 0"
          "i < length BL" "length (BL ! i) \<noteq> length small"
    | (f) "i < length G" "length (G ! i) = length small" "dot (G ! i) (G ! i) \<noteq> 0"
          "i < length BL" "length (BL ! i) = length small"
    by linarith
  then show ?case
  proof cases
    case a
    then show ?thesis by (simp add: row_def nearest_plane_steps.no_G_row)
  next
    case b
    then show ?thesis by (simp add: row_def nearest_plane_steps.degree_G)
  next
    case c
    then show ?thesis by (simp add: row_def nearest_plane_steps.zero_G)
  next
    case d
    then show ?thesis by (simp add: row_def nearest_plane_steps.no_BL_row)
  next
    case e
    then show ?thesis by (simp add: row_def nearest_plane_steps.degree_BL)
  next
    case f
    have "nearest_plane_steps BL G (i # is) small
            (nearest_plane_loop BL G is (vsub small (smult (of_int ?c) (BL ! i))))"
      using f Cons[of "vsub small (smult (of_int ?c) (BL ! i))"]
      by (intro nearest_plane_steps.iteration[where c = ?c]) simp_all
    with f show ?thesis by (simp add: row_def)
  qed
qed

lemma nearest_plane_steps_iff:
  "nearest_plane_steps BL G is small r \<longleftrightarrow> nearest_plane_loop BL G is small = r"
  using nearest_plane_steps_determ nearest_plane_steps_loop by blast

lemma nearest_plane_run_iff:
  "nearest_plane_run BL G v r \<longleftrightarrow> nearest_plane BL G v = r"
  by (auto simp: nearest_plane_run.simps nearest_plane_steps_iff nearest_plane_def Let_def
      split: sum.splits)

text \<open>
  C8. Two runs of the solver on the same reduced basis, orthogonal basis and target
  end in the same outcome: the same vector, or the same error.
\<close>

theorem nearest_plane_deterministic:
  assumes "nearest_plane_run BL G v r" and "nearest_plane_run BL G v r'"
  shows "r' = r"
  using assms
proof (induction rule: nearest_plane_run.induct)
  case (raised BL G v e)
  from raised(2) nearest_plane_steps_determ[OF raised(1)] show ?case
    by (auto simp: nearest_plane_run.simps)
next
  case (returned BL G v small)
  from returned(2) nearest_plane_steps_determ[OF returned(1)] show ?case
    by (auto simp: nearest_plane_run.simps)
qed

lemma example_solve:
  "nearest_plane [[1, - (2 / 5)], [0, 1]] [[1, - (2 / 5)], [10 / 29, 25 / 29]] [2, 0] = Inr [2, 1 / 5]"
  by code_simp

theorem nearest_plane_deterministic_witness:
  "nearest_plane_run [[1, - (2 / 5)], [0, 1]] [[1, - (2 / 5)], [10 / 29, 25 / 29]] [2, 0] (Inr [2, 1 / 5]) \<and>
   nearest_plane_run [[1, - (2 / 5)], [0, 1]] [[1, - (2 / 5)], [10 / 29, 25 / 29]] [2, 0]
     (nearest_plane [[1, - (2 / 5)], [0, 1]] [[1, - (2 / 5)], [10 / 29, 25 / 29]] [2, 0]) \<and>
   nearest_plane [[1, - (2 / 5)], [0, 1]] [[1, - (2 / 5)], [10 / 29, 25 / 29]] [2, 0] = Inr [2, 1 / 5]"
proof -
  have first: "nearest_plane_run [[1, - (2 / 5)], [0, 1]] [[1, - (2 / 5)], [10 / 29, 25 / 29]] [2, 0]
               (Inr [2, 1 / 5])"
    using example_solve by (simp only: nearest_plane_run_iff)
  have second: "nearest_plane_run [[1, - (2 / 5)], [0, 1]] [[1, - (2 / 5)], [10 / 29, 25 / 29]] [2, 0]
     (nearest_plane [[1, - (2 / 5)], [0, 1]] [[1, - (2 / 5)], [10 / 29, 25 / 29]] [2, 0])"
    by (simp only: nearest_plane_run_iff)
  from nearest_plane_deterministic[OF first second] first second show ?thesis by blast
qed

lemma returned_list:
  "nearest_plane [[1, - (2 / 5)], [0, 1]] [[1, - (2 / 5)], [10 / 29, 25 / 29]] [5, 0] = Inr [5]"
  by code_simp

lemma residual_zero:
  "nearest_plane_loop [[1, - (2 / 5)], [0, 1]] [[1, - (2 / 5)], [10 / 29, 25 / 29]] (rev [0..<2]) [5, 0]
     = Inr [0, 0]"
  by code_simp

lemma other_orthogonal: "gram_schmidt [[0, 1], [1, - (2 / 5)]] = [[0, 1], [1, 0]]"
  by code_simp

lemma other_returned_list:
  "nearest_plane [[0, 1], [1, - (2 / 5)]] [[0, 1], [1, 0]] [5, 0] = Inr [5]"
  by code_simp

lemma small_reduction: "LLL 1 [[5, 0], [2, 1 / 5]] = Inr [[1, - (2 / 5)], [0, 1]]"
  by code_simp

lemma small_orthogonal:
  "gram_schmidt [[1, - (2 / 5)], [0, 1]] = [[1, - (2 / 5)], [10 / 29, 25 / 29]]"
  by code_simp

text \<open>
  C10 fails on the notebook's code. For the basis of one query with input \<open>2\<close> modulo
  \<open>5\<close> the target \<open>(5, 0)\<close> is itself a point of the lattice, and the loop finds it:
  the residual is zero. The function returns the one-element list \<open>[5]\<close>, which is
  not the vector \<open>(5, 0)\<close>. It does so with the reduction of the spec and with the
  reduced basis in the other order of rows.
\<close>

theorem nearest_plane_drops_zero:
  "approximate_closest_vector (LLL 1) [[5, 0], [2, 1 / 5]] [5, 0] = Inr [5] \<and>
   approximate_closest_vector (\<lambda>B. Inr [[0, 1], [1, - (2 / 5)]]) [[5, 0], [2, 1 / 5]] [5, 0] = Inr [5] \<and>
   nearest_plane [[1, - (2 / 5)], [0, 1]] [[1, - (2 / 5)], [10 / 29, 25 / 29]] [5, 0] = Inr [5] \<and>
   nearest_plane_loop [[1, - (2 / 5)], [0, 1]] [[1, - (2 / 5)], [10 / 29, 25 / 29]] (rev [0..<2]) [5, 0]
     = Inr [0, 0]"
  by (simp add: approximate_closest_vector_def small_reduction[unfolded One_nat_def]
      small_orthogonal returned_list residual_zero other_orthogonal other_returned_list)

section \<open>The reduction\<close>

lemma is_matrix_nth: "is_matrix B m \<Longrightarrow> i < length B \<Longrightarrow> length (B ! i) = m"
  by (simp add: is_matrix_def)

lemma vsub_smult_inverse:
  assumes "length u = m" "length v = m"
  shows "vsub (vsub u (smult (of_int z) v)) (smult (of_int (- z)) v) = u"
  using assms
  by (intro nth_equalityI) (simp_all add: length_vsub length_smult nth_vsub nth_smult)

text \<open>One row operation: row \<open>i\<close> loses an integer multiple of another row \<open>j\<close>.\<close>

lemma add_row_same_lattice:
  fixes z :: int
  assumes B: "is_matrix B m" and i: "i < length B" and j: "j < length B" and ij: "j \<noteq> i"
  defines "B' \<equiv> B[i := vsub (B ! i) (smult (of_int z) (B ! j))]"
  shows "is_matrix B' m \<and> length B' = length B \<and> same_lattice m B B'"
proof -
  have li: "length (B ! i) = m" and lj: "length (B ! j) = m"
    using B i j by (simp_all add: is_matrix_nth)
  have new: "length (vsub (B ! i) (smult (of_int z) (B ! j))) = m"
    using li lj by (simp add: length_vsub length_smult)
  have mat: "is_matrix B' m"
    using B new unfolding is_matrix_def B'_def by (auto dest: set_update_subset_insert[THEN subsetD])
  have len: "length B' = length B" by (simp add: B'_def)
  have B'i: "B' ! i = vsub (B ! i) (smult (of_int z) (B ! j))" using i by (simp add: B'_def)
  have B'k: "\<And>k. k \<noteq> i \<Longrightarrow> B' ! k = B ! k" by (simp add: B'_def)
  have down: "sublattice m B' B"
    unfolding sublattice_def
  proof
    fix r assume "r \<in> set B'"
    then obtain k where k: "k < length B" "r = B' ! k" using len by (metis in_set_conv_nth)
    show "in_lattice m B r"
    proof (cases "k = i")
      case True
      have "in_lattice m B (B ! i)" "in_lattice m B (B ! j)"
        using i j li lj by (simp_all add: in_lattice_row)
      then show ?thesis using k True B'i by (simp add: in_lattice_sub_smult)
    next
      case False
      with k B'k B show ?thesis by (simp add: in_lattice_row is_matrix_nth)
    qed
  qed
  have up: "sublattice m B B'"
    unfolding sublattice_def
  proof
    fix r assume "r \<in> set B"
    then obtain k where k: "k < length B" "r = B ! k" by (metis in_set_conv_nth)
    show "in_lattice m B' r"
    proof (cases "k = i")
      case True
      have a: "in_lattice m B' (B' ! i)" "in_lattice m B' (B' ! j)"
        using i j len mat by (simp_all add: in_lattice_row is_matrix_nth)
      have "B ! i = vsub (B' ! i) (smult (of_int (- z)) (B' ! j))"
        using vsub_smult_inverse[OF li lj, of z] B'i B'k[OF ij] by simp
      with in_lattice_sub_smult[OF a, of "- z"] k True show ?thesis by simp
    next
      case False
      with k B'k[of k] len mat show ?thesis
        by (metis in_lattice_row is_matrix_nth)
    qed
  qed
  from mat len down up show ?thesis by (simp add: same_lattice_def)
qed

lemma reduce_row_same_lattice:
  assumes "is_matrix B m" "i < length B" "\<forall>j \<in> set js. j < i"
  shows "is_matrix (reduce_row B G i js) m \<and> length (reduce_row B G i js) = length B \<and>
         same_lattice m B (reduce_row B G i js)"
  using assms
proof (induction js arbitrary: B)
  case Nil
  then show ?case by (simp add: same_lattice_refl)
next
  case (Cons j js)
  let ?z = "round_away (mu (B ! i) (G ! j))"
  let ?B = "B[i := vsub (B ! i) (smult (of_int ?z) (B ! j))]"
  from Cons.prems have j: "j < length B" "j \<noteq> i" by auto
  from add_row_same_lattice[OF Cons.prems(1,2) j, of ?z]
  have step: "is_matrix ?B m" "length ?B = length B" "same_lattice m B ?B" by simp_all
  from Cons.prems step have "is_matrix (reduce_row ?B G i js) m \<and>
      length (reduce_row ?B G i js) = length ?B \<and> same_lattice m ?B (reduce_row ?B G i js)"
    by (intro Cons.IH) simp_all
  with step show ?case using same_lattice_trans by auto
qed

lemma size_reduce_rows_same_lattice:
  assumes "is_matrix B m" "\<forall>i \<in> set rows. i < length B"
  shows "is_matrix (foldl (\<lambda>B' i. reduce_row B' G i (rev [0..<i])) B rows) m \<and>
         length (foldl (\<lambda>B' i. reduce_row B' G i (rev [0..<i])) B rows) = length B \<and>
         same_lattice m B (foldl (\<lambda>B' i. reduce_row B' G i (rev [0..<i])) B rows)"
  using assms
proof (induction rows arbitrary: B)
  case Nil
  then show ?case by (simp add: same_lattice_refl)
next
  case (Cons i rows)
  let ?B = "reduce_row B G i (rev [0..<i])"
  from Cons.prems have i: "i < length B" by simp
  from reduce_row_same_lattice[OF Cons.prems(1) i, of "rev [0..<i]" G]
  have step: "is_matrix ?B m" "length ?B = length B" "same_lattice m B ?B" by simp_all
  from Cons.prems step have "is_matrix (foldl (\<lambda>B' i. reduce_row B' G i (rev [0..<i])) ?B rows) m \<and>
         length (foldl (\<lambda>B' i. reduce_row B' G i (rev [0..<i])) ?B rows) = length ?B \<and>
         same_lattice m ?B (foldl (\<lambda>B' i. reduce_row B' G i (rev [0..<i])) ?B rows)"
    by (intro Cons.IH) simp_all
  with step show ?case using same_lattice_trans by auto
qed

lemma size_reduce_same_lattice:
  assumes "is_matrix B m"
  shows "is_matrix (size_reduce B G) m \<and> length (size_reduce B G) = length B \<and>
         same_lattice m B (size_reduce B G)"
  unfolding size_reduce_def
  using size_reduce_rows_same_lattice[OF assms, of "[0..<length B]" G] by simp

lemma swap_rows_same_lattice:
  assumes "is_matrix B m" "i + 1 < length B"
  shows "is_matrix (swap_rows B i) m \<and> length (swap_rows B i) = length B \<and>
         same_lattice m B (swap_rows B i)"
proof -
  have s: "set (swap_rows B i) = set B"
    unfolding swap_rows_def using assms(2) by (intro set_swap) simp_all
  then have mat: "is_matrix (swap_rows B i) m" using assms(1) by (simp add: is_matrix_def)
  have "sublattice m B (swap_rows B i)" "sublattice m (swap_rows B i) B"
    using sublattice_refl[OF assms(1)] sublattice_refl[OF mat] s
    by (simp_all add: sublattice_def)
  with mat show ?thesis by (simp add: same_lattice_def swap_rows_def)
qed

lemma lll_pass_same_lattice:
  assumes "is_matrix B m" "i + 1 < length B" "lll_pass B i = (B', i')"
  shows "is_matrix B' m \<and> length B' = length B \<and> same_lattice m B B'"
proof -
  let ?G = "gram_schmidt B"
  let ?B1 = "size_reduce B ?G"
  from size_reduce_same_lattice[OF assms(1), of ?G]
  have B1: "is_matrix ?B1 m" "length ?B1 = length B" "same_lattice m B ?B1" by simp_all
  show ?thesis
  proof (cases "lovasz ?B1 ?G i")
    case True
    with assms(3) have "B' = ?B1" by (simp add: lll_pass_def lovasz_step_def)
    with B1 show ?thesis by simp
  next
    case False
    with assms(3) have B': "B' = swap_rows ?B1 i" by (simp add: lll_pass_def lovasz_step_def)
    from assms(2) B1 have "i + 1 < length ?B1" by simp
    from swap_rows_same_lattice[OF B1(1) this] B1 B' show ?thesis
      using same_lattice_trans by auto
  qed
qed

lemma lll_loop_same_lattice:
  assumes "is_matrix B m" "lll_loop fuel B i = Inr BL"
  shows "is_matrix BL m \<and> length BL = length B \<and> same_lattice m B BL"
  using assms
proof (induction fuel arbitrary: B i)
  case 0
  then show ?case by (auto simp: same_lattice_refl split: if_splits)
next
  case (Suc fuel)
  show ?case
  proof (cases "length B \<le> i + 1")
    case True
    with Suc.prems show ?thesis by (simp add: same_lattice_refl)
  next
    case False
    obtain B' i' where pass: "lll_pass B i = (B', i')" by (cases "lll_pass B i")
    from False have "i + 1 < length B" by simp
    from lll_pass_same_lattice[OF Suc.prems(1) this pass]
    have B': "is_matrix B' m" "length B' = length B" "same_lattice m B B'" by simp_all
    from False pass Suc.prems(2) have "lll_loop fuel B' i' = Inr BL" by simp
    from Suc.IH[OF B'(1) this] B' show ?thesis using same_lattice_trans by auto
  qed
qed

text \<open>
  C3. A basis that the reduction returns has the dimensions of the input and spans
  the same lattice: every row of each is an integer combination of the rows of the
  other, so the two lattices hold the same points.
\<close>

theorem reduction_preserves_lattice:
  assumes "is_matrix B m" and "LLL safety B = Inr BL"
  shows "is_matrix BL m \<and> length BL = length B \<and> same_lattice m B BL \<and>
         (\<forall>v. in_lattice m B v \<longleftrightarrow> in_lattice m BL v)"
proof -
  from lll_loop_same_lattice[OF assms(1) assms(2)[unfolded LLL_def]]
  have "is_matrix BL m" "length BL = length B" "same_lattice m B BL" by simp_all
  then show ?thesis using same_lattice_points by blast
qed

lemma lll_loop_outcome:
  "lll_loop fuel B i = Inl ReductionNonTermination \<or> (\<exists>BL. lll_loop fuel B i = Inr BL)"
proof (induction fuel arbitrary: B i)
  case 0
  show ?case by simp
next
  case (Suc fuel)
  show ?case
  proof (cases "length B \<le> i + 1")
    case True
    then show ?thesis by simp
  next
    case False
    obtain B' i' where "lll_pass B i = (B', i')" by (cases "lll_pass B i")
    with False Suc.IH[of B' i'] show ?thesis by simp
  qed
qed

lemma lll_passes_le: "lll_passes fuel B i \<le> fuel"
proof (induction fuel arbitrary: B i)
  case 0
  show ?case by simp
next
  case (Suc fuel)
  show ?case
  proof (cases "length B \<le> i + 1")
    case True
    then show ?thesis by simp
  next
    case False
    obtain B' i' where "lll_pass B i = (B', i')" by (cases "lll_pass B i")
    with False Suc.IH[of B' i'] show ?thesis by simp
  qed
qed

lemma lll_loop_gives_up:
  "lll_loop fuel B i = Inl e \<Longrightarrow> lll_passes fuel B i = fuel"
proof (induction fuel arbitrary: B i)
  case 0
  show ?case by simp
next
  case (Suc fuel)
  show ?case
  proof (cases "length B \<le> i + 1")
    case True
    with Suc.prems show ?thesis by simp
  next
    case False
    obtain B' i' where "lll_pass B i = (B', i')" by (cases "lll_pass B i")
    with False Suc.prems Suc.IH[of B' i'] show ?thesis by simp
  qed
qed

text \<open>A larger cap never changes a basis that the reduction returned.\<close>

lemma lll_loop_more_fuel:
  "lll_loop fuel B i = Inr BL \<Longrightarrow> lll_loop (fuel + extra) B i = Inr BL"
proof (induction fuel arbitrary: B i)
  case 0
  then show ?case by (cases extra) (auto split: if_splits)
next
  case (Suc fuel)
  show ?case
  proof (cases "length B \<le> i + 1")
    case True
    with Suc.prems show ?thesis by simp
  next
    case False
    obtain B' i' where "lll_pass B i = (B', i')" by (cases "lll_pass B i")
    with False Suc.prems Suc.IH[of B' i'] show ?thesis by simp
  qed
qed

subsection \<open>Dot products\<close>

lemma dot_sum:
  assumes "length u = m" "length v = m"
  shows "dot u v = (\<Sum>j<m. u ! j * v ! j)"
proof -
  have "dot u v = (\<Sum>j = 0..<m. map2 (*) u v ! j)"
    unfolding dot_def using assms by (simp add: sum_list_sum_nth)
  also have "\<dots> = (\<Sum>j = 0..<m. u ! j * v ! j)"
    using assms by (intro sum.cong) simp_all
  finally show ?thesis by (simp add: lessThan_atLeast0)
qed

lemma dot_commute:
  assumes "length u = m" "length v = m"
  shows "dot u v = dot v u"
  using assms by (simp add: dot_sum[of _ m] mult.commute)

lemma dot_vsub_smult:
  assumes "length u = m" "length v = m" "length w = m"
  shows "dot (vsub u (smult z v)) w = dot u w - z * dot v w"
proof -
  have "length (vsub u (smult z v)) = m" using assms by (simp add: length_vsub length_smult)
  then have "dot (vsub u (smult z v)) w = (\<Sum>j<m. (u ! j - z * v ! j) * w ! j)"
    using assms by (simp add: dot_sum[of _ m] nth_vsub nth_smult length_smult)
  also have "\<dots> = (\<Sum>j<m. u ! j * w ! j) - z * (\<Sum>j<m. v ! j * w ! j)"
    by (simp add: left_diff_distrib sum_subtractf sum_distrib_left mult.assoc)
  finally show ?thesis using assms by (simp add: dot_sum[of _ m])
qed

lemma dot_self_zero:
  assumes "length g = m" "dot g g = 0"
  shows "g = replicate m 0"
proof -
  from assms have "(\<Sum>j<m. g ! j * g ! j) = 0" by (simp add: dot_sum[of _ m])
  then have "\<forall>j\<in>{..<m}. g ! j * g ! j = 0"
    by (subst (asm) sum_nonneg_eq_0_iff) simp_all
  then show ?thesis using assms(1) by (intro nth_equalityI) simp_all
qed

lemma dot_zero_right: "dot b (replicate m 0) = 0"
proof (induction m arbitrary: b)
  case 0
  then show ?case by (simp add: dot_def)
next
  case (Suc m)
  then show ?case by (cases b) (simp_all add: dot_def)
qed

lemma mu_vsub_smult:
  assumes "length u = m" "length v = m" "length g = m"
  shows "mu (vsub u (smult z v)) g = mu u g - z * mu v g"
  using assms by (simp add: mu_def dot_vsub_smult[of _ m] diff_divide_distrib)

lemma mu_self:
  assumes "length b = m" "length g = m" "dot b g = dot g g"
  shows "vsub g (smult (mu b g) g) = replicate m 0"
proof (cases "dot g g = 0")
  case True
  with dot_self_zero[OF assms(2)] have "g = replicate m 0" by simp
  then show ?thesis by (intro nth_equalityI) (simp_all add: length_vsub length_smult nth_vsub nth_smult)
next
  case False
  with assms(3) have "mu b g = 1" by (simp add: mu_def)
  then show ?thesis using assms(2)
    by (intro nth_equalityI) (simp_all add: length_vsub length_smult nth_vsub nth_smult)
qed

subsection \<open>The orthogonal basis\<close>

lemma gs_residual_snoc:
  "gs_residual b (gs @ [g]) = vsub (gs_residual b gs) (smult (mu b g) g)"
  by (simp add: gs_residual_def)

lemma gs_residual_append:
  "gs_residual b (gs @ hs) = foldl (\<lambda>w g. vsub w (smult (mu b g) g)) (gs_residual b gs) hs"
  by (simp add: gs_residual_def)

lemma length_gs_residual:
  assumes "length b = m" "is_matrix gs m"
  shows "length (gs_residual b gs) = m"
  using assms(2)
proof (induction gs rule: rev_induct)
  case Nil
  then show ?case using assms(1) by (simp add: gs_residual_def)
next
  case (snoc g gs)
  then show ?case
    by (simp add: gs_residual_snoc length_vsub length_smult is_matrix_def)
qed

lemma gram_schmidt_acc_append:
  "gram_schmidt_acc gs (xs @ ys) = gram_schmidt_acc (gram_schmidt_acc gs xs) ys"
  by (induction xs arbitrary: gs) simp_all

lemma gram_schmidt_acc_prefix:
  "length (gram_schmidt_acc gs xs) = length gs + length xs \<and>
   take (length gs) (gram_schmidt_acc gs xs) = gs"
proof (induction xs arbitrary: gs)
  case Nil
  then show ?case by simp
next
  case (Cons b xs)
  from Cons.IH[of "gs @ [gs_residual b gs]"]
  have len: "length (gram_schmidt_acc (gs @ [gs_residual b gs]) xs) = length gs + 1 + length xs"
    and tk: "take (length gs + 1) (gram_schmidt_acc (gs @ [gs_residual b gs]) xs) = gs @ [gs_residual b gs]"
    by simp_all
  have "take (length gs) (take (length gs + 1) (gram_schmidt_acc (gs @ [gs_residual b gs]) xs)) = gs"
    unfolding tk by simp
  then have "take (length gs) (gram_schmidt_acc (gs @ [gs_residual b gs]) xs) = gs"
    by (simp add: min_def)
  with len show ?case by simp
qed

lemma gram_schmidt_snoc:
  "gram_schmidt (B @ [b]) = gram_schmidt B @ [gs_residual b (gram_schmidt B)]"
  by (simp add: gram_schmidt_def gram_schmidt_acc_append)

lemma gram_schmidt_append:
  "gram_schmidt (B @ C) = gram_schmidt_acc (gram_schmidt B) C"
  by (simp add: gram_schmidt_def gram_schmidt_acc_append)

lemma length_gram_schmidt: "length (gram_schmidt B) = length B"
  using gram_schmidt_acc_prefix[of "[]" B] by (simp add: gram_schmidt_def)

lemma gram_schmidt_take: "take k (gram_schmidt B) = gram_schmidt (take k B)"
proof (cases "k \<le> length B")
  case True
  have "gram_schmidt B = gram_schmidt_acc (gram_schmidt (take k B)) (drop k B)"
    using gram_schmidt_append[of "take k B" "drop k B"] by simp
  moreover have "length (gram_schmidt (take k B)) = k"
    using True by (simp add: length_gram_schmidt)
  ultimately show ?thesis
    using gram_schmidt_acc_prefix[of "gram_schmidt (take k B)" "drop k B"] by simp
next
  case False
  then show ?thesis by (simp add: length_gram_schmidt)
qed

lemma gram_schmidt_nth:
  assumes "k < length B"
  shows "gram_schmidt B ! k = gs_residual (B ! k) (take k (gram_schmidt B))"
proof -
  have "take (Suc k) (gram_schmidt B) = gram_schmidt (take k B @ [B ! k])"
    using assms by (simp add: gram_schmidt_take take_Suc_conv_app_nth)
  also have "\<dots> = take k (gram_schmidt B) @ [gs_residual (B ! k) (take k (gram_schmidt B))]"
    by (simp add: gram_schmidt_snoc gram_schmidt_take)
  finally have "take (Suc k) (gram_schmidt B) ! k
      = (take k (gram_schmidt B) @ [gs_residual (B ! k) (take k (gram_schmidt B))]) ! k"
    by simp
  then show ?thesis using assms by (simp add: nth_append length_gram_schmidt)
qed

lemma is_matrix_gram_schmidt:
  assumes "is_matrix B m"
  shows "is_matrix (gram_schmidt B) m"
  using assms
proof (induction B rule: rev_induct)
  case Nil
  then show ?case by (simp add: gram_schmidt_def is_matrix_def)
next
  case (snoc b B)
  then have B: "is_matrix B m" and b: "length b = m" by (simp_all add: is_matrix_def)
  from snoc.IH[OF B] have G: "is_matrix (gram_schmidt B) m" .
  from length_gs_residual[OF b G] G show ?case
    by (simp add: gram_schmidt_snoc is_matrix_def)
qed

lemma is_matrix_take: "is_matrix B m \<Longrightarrow> is_matrix (take k B) m"
  by (auto simp: is_matrix_def dest: in_set_takeD)

lemma dot_gs_residual:
  assumes "length b = m" "is_matrix gs m" "length h = m" "\<forall>g \<in> set gs. dot g h = 0"
  shows "dot (gs_residual b gs) h = dot b h"
  using assms(2,4)
proof (induction gs rule: rev_induct)
  case Nil
  then show ?case by (simp add: gs_residual_def)
next
  case (snoc g gs)
  then have gs: "is_matrix gs m" and g: "length g = m" and z: "dot g h = 0"
    and rest: "\<forall>g \<in> set gs. dot g h = 0" by (simp_all add: is_matrix_def)
  from length_gs_residual[OF assms(1) gs] have "length (gs_residual b gs) = m" .
  from dot_vsub_smult[OF this g assms(3)] z snoc.IH[OF gs rest]
  show ?case by (simp add: gs_residual_snoc)
qed

lemma mu_times_norm:
  assumes "length b = m" "length g = m"
  shows "mu b g * dot g g = dot b g"
proof (cases "dot g g = 0")
  case True
  with dot_self_zero[OF assms(2)] have "g = replicate m 0" by simp
  then have "dot b g = 0" by (simp add: dot_zero_right)
  with True show ?thesis by simp
next
  case False
  then show ?thesis by (simp add: mu_def)
qed

lemma gs_residual_orthogonal:
  assumes "length b = m" "is_matrix gs m"
    and "\<forall>i<length gs. \<forall>j<length gs. i \<noteq> j \<longrightarrow> dot (gs ! i) (gs ! j) = 0"
    and "j < length gs"
  shows "dot (gs_residual b gs) (gs ! j) = 0"
  using assms(2,3,4)
proof (induction gs arbitrary: j rule: rev_induct)
  case Nil
  then show ?case by simp
next
  case (snoc g gs)
  from snoc.prems(1) have gs: "is_matrix gs m" and g: "length g = m"
    by (simp_all add: is_matrix_def)
  have orth: "\<forall>i<length gs. \<forall>j<length gs. i \<noteq> j \<longrightarrow> dot (gs ! i) (gs ! j) = 0"
  proof (intro allI impI)
    fix i j assume "i < length gs" "j < length gs" "i \<noteq> j"
    with snoc.prems(2)[rule_format, of i j] show "dot (gs ! i) (gs ! j) = 0"
      by (simp add: nth_append)
  qed
  have last: "\<forall>i<length gs. dot (gs ! i) g = 0"
  proof (intro allI impI)
    fix i assume "i < length gs"
    with snoc.prems(2)[rule_format, of i "length gs"] show "dot (gs ! i) g = 0"
      by (simp add: nth_append)
  qed
  have lr: "length (gs_residual b gs) = m" by (rule length_gs_residual[OF assms(1) gs])
  show ?case
  proof (cases "j = length gs")
    case True
    from last have "\<forall>h \<in> set gs. dot h g = 0" by (auto simp: in_set_conv_nth)
    from dot_gs_residual[OF assms(1) gs g this] have "dot (gs_residual b gs) g = dot b g" .
    with dot_vsub_smult[OF lr g g, of "mu b g"] mu_times_norm[OF assms(1) g] True
    show ?thesis by (simp add: gs_residual_snoc)
  next
    case False
    with snoc.prems(3) have j: "j < length gs" by simp
    then have lj: "length (gs ! j) = m" using gs by (simp add: is_matrix_def)
    from last j have "dot (gs ! j) g = 0" by simp
    with dot_commute[OF g lj] have "dot g (gs ! j) = 0" by simp
    with dot_vsub_smult[OF lr g lj, of "mu b g"] snoc.IH[OF gs orth j] j
    show ?thesis by (simp add: gs_residual_snoc nth_append)
  qed
qed

lemma gram_schmidt_orthogonal:
  assumes "is_matrix B m"
  shows "\<forall>i<length B. \<forall>j<length B. i \<noteq> j \<longrightarrow> dot (gram_schmidt B ! i) (gram_schmidt B ! j) = 0"
  using assms
proof (induction B rule: rev_induct)
  case Nil
  then show ?case by simp
next
  case (snoc b B)
  then have B: "is_matrix B m" and b: "length b = m" by (simp_all add: is_matrix_def)
  let ?G = "gram_schmidt B"
  let ?g = "gs_residual b ?G"
  from snoc.IH[OF B] have orth: "\<forall>i<length ?G. \<forall>j<length ?G. i \<noteq> j \<longrightarrow> dot (?G ! i) (?G ! j) = 0"
    by (simp add: length_gram_schmidt)
  have G: "is_matrix ?G m" by (rule is_matrix_gram_schmidt[OF B])
  have lg: "length ?g = m" by (rule length_gs_residual[OF b G])
  have new: "\<forall>j<length ?G. dot ?g (?G ! j) = 0 \<and> dot (?G ! j) ?g = 0"
  proof (intro allI impI)
    fix j assume j: "j < length ?G"
    from gs_residual_orthogonal[OF b G orth j] have "dot ?g (?G ! j) = 0" .
    moreover from j G have "length (?G ! j) = m" by (simp add: is_matrix_def)
    ultimately show "dot ?g (?G ! j) = 0 \<and> dot (?G ! j) ?g = 0"
      using dot_commute[OF lg, of "?G ! j"] by simp
  qed
  show ?case
  proof (intro allI impI)
    fix i j assume "i < length (B @ [b])" "j < length (B @ [b])" "i \<noteq> j"
    then show "dot (gram_schmidt (B @ [b]) ! i) (gram_schmidt (B @ [b]) ! j) = 0"
      using orth new
      by (cases "i < length B"; cases "j < length B")
        (simp_all add: gram_schmidt_snoc nth_append length_gram_schmidt)
  qed
qed

text \<open>A row is orthogonal to the orthogonal vectors of the later rows.\<close>

lemma dot_row_orthogonal:
  assumes "is_matrix B m" "j \<le> l" "l < length B"
  shows "dot (B ! j) (gram_schmidt B ! l) = dot (gram_schmidt B ! j) (gram_schmidt B ! l)"
proof -
  let ?G = "gram_schmidt B"
  from assms have j: "j < length B" by simp
  have G: "is_matrix ?G m" by (rule is_matrix_gram_schmidt[OF assms(1)])
  have Gj: "is_matrix (take j ?G) m" by (rule is_matrix_take[OF G])
  have lb: "length (B ! j) = m" using assms(1) j by (simp add: is_matrix_def)
  have lh: "length (?G ! l) = m" using G assms(3) by (simp add: is_matrix_def length_gram_schmidt)
  have "\<forall>g \<in> set (take j ?G). dot g (?G ! l) = 0"
  proof
    fix g assume "g \<in> set (take j ?G)"
    then obtain i where i: "i < j" "g = ?G ! i"
      using j by (auto simp: in_set_conv_nth length_gram_schmidt)
    with gram_schmidt_orthogonal[OF assms(1), rule_format, of i l] assms(2,3)
    show "dot g (?G ! l) = 0" by simp
  qed
  from dot_gs_residual[OF lb Gj lh this] gram_schmidt_nth[OF j] show ?thesis by simp
qed

lemma mu_row_later:
  assumes "is_matrix B m" "j < l" "l < length B"
  shows "mu (B ! j) (gram_schmidt B ! l) = 0"
proof -
  from assms have "dot (B ! j) (gram_schmidt B ! l) = dot (gram_schmidt B ! j) (gram_schmidt B ! l)"
    by (intro dot_row_orthogonal) simp_all
  also have "\<dots> = 0"
    using gram_schmidt_orthogonal[OF assms(1), rule_format, of j l] assms(2,3) by simp
  finally show ?thesis by (simp add: mu_def)
qed

lemma mu_row_self:
  assumes "is_matrix B m" "j < length B" "dot (gram_schmidt B ! j) (gram_schmidt B ! j) \<noteq> 0"
  shows "mu (B ! j) (gram_schmidt B ! j) = 1"
  using dot_row_orthogonal[OF assms(1) _ assms(2), of j] assms(3) by (simp add: mu_def)

subsection \<open>Row operations and the orthogonal basis\<close>

lemma gs_residual_linear:
  assumes "length b = m" "length c = m" "is_matrix gs m"
  shows "gs_residual (vsub b (smult z c)) gs = vsub (gs_residual b gs) (smult z (gs_residual c gs))"
  using assms(3)
proof (induction gs rule: rev_induct)
  case Nil
  then show ?case by (simp add: gs_residual_def)
next
  case (snoc g gs)
  then have gs: "is_matrix gs m" and g: "length g = m" by (simp_all add: is_matrix_def)
  have lb: "length (gs_residual b gs) = m" by (rule length_gs_residual[OF assms(1) gs])
  have lc: "length (gs_residual c gs) = m" by (rule length_gs_residual[OF assms(2) gs])
  have "vsub (vsub (gs_residual b gs) (smult z (gs_residual c gs))) (smult (mu b g - z * mu c g) g)
      = vsub (vsub (gs_residual b gs) (smult (mu b g) g))
          (smult z (vsub (gs_residual c gs) (smult (mu c g) g)))"
    using lb lc g
    by (intro nth_equalityI)
      (simp_all add: length_vsub length_smult nth_vsub nth_smult algebra_simps)
  with snoc.IH[OF gs] mu_vsub_smult[OF assms(1,2) g, of z] show ?case
    by (simp add: gs_residual_snoc)
qed

lemma vsub_zero_smult:
  assumes "length g = m"
  shows "vsub (replicate m 0) (smult 0 g) = replicate m 0"
  using assms by (intro nth_equalityI) (simp_all add: length_vsub length_smult nth_vsub nth_smult)

lemma vsub_smult_zero:
  assumes "length u = m"
  shows "vsub u (smult z (replicate m 0)) = u"
  using assms by (intro nth_equalityI) (simp_all add: length_vsub length_smult nth_vsub nth_smult)

text \<open>
  Once the projections onto the orthogonal vectors of rows \<open>0\<close> to \<open>j\<close> are taken from
  row \<open>j\<close>, nothing is left of it.
\<close>

lemma gs_residual_row_zero:
  assumes "is_matrix B m" "j < k" "k \<le> length B"
  shows "gs_residual (B ! j) (take k (gram_schmidt B)) = replicate m 0"
  using assms(2,3)
proof (induction k)
  case 0
  then show ?case by simp
next
  case (Suc k)
  let ?G = "gram_schmidt B"
  from Suc.prems have k: "k < length B" by simp
  with Suc.prems have j: "j < length B" by simp
  have G: "is_matrix ?G m" by (rule is_matrix_gram_schmidt[OF assms(1)])
  have lb: "length (B ! j) = m" using assms(1) j by (simp add: is_matrix_def)
  have lg: "length (?G ! k) = m" using G k by (simp add: is_matrix_def length_gram_schmidt)
  have tk: "take (Suc k) ?G = take k ?G @ [?G ! k]"
    using k by (simp add: take_Suc_conv_app_nth length_gram_schmidt)
  show ?case
  proof (cases "j = k")
    case True
    from dot_row_orthogonal[OF assms(1) _ j, of j]
    have "dot (B ! j) (?G ! j) = dot (?G ! j) (?G ! j)" by simp
    from mu_self[OF lb _ this] lg True gram_schmidt_nth[OF j] show ?thesis
      by (simp add: tk gs_residual_snoc)
  next
    case False
    with Suc.prems have jk: "j < k" by simp
    from Suc.IH[OF jk] k have "gs_residual (B ! j) (take k ?G) = replicate m 0" by simp
    moreover from mu_row_later[OF assms(1) jk k] have "mu (B ! j) (?G ! k) = 0" .
    ultimately show ?thesis using vsub_zero_smult[OF lg]
      by (simp add: tk gs_residual_snoc)
  qed
qed

lemma gram_schmidt_mid:
  "gram_schmidt (xs @ b # ys)
     = gram_schmidt_acc (gram_schmidt xs @ [gs_residual b (gram_schmidt xs)]) ys"
  by (simp add: gram_schmidt_def gram_schmidt_acc_append)

text \<open>
  The orthogonal basis does not change when a row loses a multiple of an earlier row.
\<close>

lemma gram_schmidt_row_op:
  assumes "is_matrix B m" "j < k" "k < length B"
  shows "gram_schmidt (B[k := vsub (B ! k) (smult z (B ! j))]) = gram_schmidt B"
proof -
  let ?G = "gram_schmidt B"
  let ?b' = "vsub (B ! k) (smult z (B ! j))"
  from assms have j: "j < length B" by simp
  have lk: "length (B ! k) = m" and lj: "length (B ! j) = m"
    using assms(1,3) j by (simp_all add: is_matrix_def)
  have Gk: "is_matrix (take k ?G) m"
    by (rule is_matrix_take[OF is_matrix_gram_schmidt[OF assms(1)]])
  have "gs_residual ?b' (take k ?G)
      = vsub (gs_residual (B ! k) (take k ?G)) (smult z (gs_residual (B ! j) (take k ?G)))"
    by (rule gs_residual_linear[OF lk lj Gk])
  also have "\<dots> = gs_residual (B ! k) (take k ?G)"
    using gs_residual_row_zero[OF assms(1,2)] assms(3)
      vsub_smult_zero[OF length_gs_residual[OF lk Gk]] by simp
  finally have res: "gs_residual ?b' (gram_schmidt (take k B)) = gs_residual (B ! k) (gram_schmidt (take k B))"
    by (simp add: gram_schmidt_take)
  have "gram_schmidt (B[k := ?b']) = gram_schmidt (take k B @ ?b' # drop (Suc k) B)"
    using assms(3) by (simp add: upd_conv_take_nth_drop)
  also have "\<dots> = gram_schmidt (take k B @ B ! k # drop (Suc k) B)"
    by (simp only: gram_schmidt_mid res)
  also have "\<dots> = gram_schmidt B"
    using assms(3) by (simp add: Cons_nth_drop_Suc)
  finally show ?thesis .
qed

lemma is_matrix_row_op:
  assumes "is_matrix B m" "j < length B" "k < length B"
  shows "is_matrix (B[k := vsub (B ! k) (smult z (B ! j))]) m"
proof -
  from assms have "length (vsub (B ! k) (smult z (B ! j))) = m"
    by (simp add: is_matrix_def length_vsub length_smult)
  with assms(1) show ?thesis
    by (auto simp: is_matrix_def dest!: set_update_subset_insert[THEN subsetD])
qed

lemma reduce_row_gram_schmidt:
  assumes "is_matrix B m" "i < length B" "\<forall>j \<in> set js. j < i"
  shows "gram_schmidt (reduce_row B G i js) = gram_schmidt B"
  using assms
proof (induction js arbitrary: B)
  case Nil
  then show ?case by simp
next
  case (Cons j js)
  let ?B = "B[i := vsub (B ! i) (smult (of_int (round_away (mu (B ! i) (G ! j)))) (B ! j))]"
  from Cons.prems have j: "j < i" by simp
  with Cons.prems(2) have jl: "j < length B" by simp
  have m: "is_matrix ?B m" by (rule is_matrix_row_op[OF Cons.prems(1) jl Cons.prems(2)])
  have "gram_schmidt (reduce_row ?B G i js) = gram_schmidt ?B"
    using Cons.prems by (intro Cons.IH[OF m]) simp_all
  with gram_schmidt_row_op[OF Cons.prems(1) j Cons.prems(2)] show ?case by simp
qed

lemma size_reduce_rows_gram_schmidt:
  assumes "is_matrix B m" "\<forall>i \<in> set rows. i < length B"
  shows "gram_schmidt (foldl (\<lambda>B' i. reduce_row B' G i (rev [0..<i])) B rows) = gram_schmidt B"
  using assms
proof (induction rows arbitrary: B)
  case Nil
  then show ?case by simp
next
  case (Cons i rows)
  let ?B = "reduce_row B G i (rev [0..<i])"
  from Cons.prems have i: "i < length B" by simp
  from reduce_row_same_lattice[OF Cons.prems(1) i, of "rev [0..<i]" G]
  have step: "is_matrix ?B m" "length ?B = length B" by simp_all
  have "gram_schmidt (foldl (\<lambda>B' i. reduce_row B' G i (rev [0..<i])) ?B rows) = gram_schmidt ?B"
    using Cons.prems step by (intro Cons.IH) simp_all
  moreover have "gram_schmidt ?B = gram_schmidt B"
    by (rule reduce_row_gram_schmidt[OF Cons.prems(1) i]) simp
  ultimately show ?case by simp
qed

lemma size_reduce_gram_schmidt:
  assumes "is_matrix B m"
  shows "gram_schmidt (size_reduce B G) = gram_schmidt B"
  unfolding size_reduce_def
  using size_reduce_rows_gram_schmidt[OF assms, of "[0..<length B]" G] by simp

subsection \<open>Size reduction\<close>

lemma abs_round_away: "\<bar>x - of_int (round_away x)\<bar> \<le> 1 / 2"
proof (cases "x < 0")
  case True
  define f where "f = \<lfloor>- x + 1 / 2\<rfloor>"
  have "of_int f \<le> - x + 1 / 2" "- x + 1 / 2 < of_int f + 1"
    unfolding f_def by linarith+
  moreover have "round_away x = - f" using True by (simp add: round_away_def f_def)
  ultimately have "x - of_int (round_away x) \<le> 1 / 2" "- (1 / 2) \<le> x - of_int (round_away x)"
    by simp_all
  then show ?thesis by linarith
next
  case False
  define f where "f = \<lfloor>x + 1 / 2\<rfloor>"
  have "of_int f \<le> x + 1 / 2" "x + 1 / 2 < of_int f + 1"
    unfolding f_def by linarith+
  moreover have "round_away x = f" using False by (simp add: round_away_def f_def)
  ultimately have "x - of_int (round_away x) \<le> 1 / 2" "- (1 / 2) \<le> x - of_int (round_away x)"
    by simp_all
  then show ?thesis by linarith
qed

lemma round_away_small:
  assumes "\<bar>x\<bar> < 1 / 2"
  shows "round_away x = 0"
proof (cases "x < 0")
  case True
  with assms have "\<lfloor>- x + 1 / 2\<rfloor> = 0" by (simp add: floor_eq_iff)
  with True show ?thesis by (simp add: round_away_def)
next
  case False
  with assms have "\<lfloor>x + 1 / 2\<rfloor> = 0" by (simp add: floor_eq_iff)
  with False show ?thesis by (simp add: round_away_def)
qed

lemma round_away_half:
  assumes "\<bar>x\<bar> \<le> 1 / 2"
  shows "(x - of_int (round_away x))\<^sup>2 = x\<^sup>2"
proof -
  consider "\<bar>x\<bar> < 1 / 2" | "x = 1 / 2" | "x = - (1 / 2)" using assms by linarith
  then show ?thesis
  proof cases
    case 1
    then show ?thesis by (simp add: round_away_small)
  next
    case 2
    have r: "round_away (1 / 2) = 1" by (simp add: round_away_def)
    show ?thesis unfolding 2 r by (simp add: power2_eq_square)
  next
    case 3
    have r: "round_away (- (1 / 2)) = - 1" by (simp add: round_away_def)
    show ?thesis unfolding 3 r by (simp add: power2_eq_square)
  qed
qed

lemma reduce_row_other: "k \<noteq> i \<Longrightarrow> reduce_row B G i js ! k = B ! k"
  by (induction js arbitrary: B) simp_all

lemma reduce_step_mu:
  assumes "is_matrix B m" "j < i" "i < length B" "l < length B"
  shows "mu (B[i := vsub (B ! i) (smult z (B ! j))] ! i) (gram_schmidt B ! l)
         = mu (B ! i) (gram_schmidt B ! l) - z * mu (B ! j) (gram_schmidt B ! l)"
proof -
  from assms have "length (B ! i) = m" "length (B ! j) = m" by (simp_all add: is_matrix_def)
  moreover from is_matrix_gram_schmidt[OF assms(1)] assms(4) have "length (gram_schmidt B ! l) = m"
    by (simp add: is_matrix_def length_gram_schmidt)
  ultimately show ?thesis using assms(3) by (simp add: mu_vsub_smult[of _ m])
qed

text \<open>
  One step of the size reduction of row \<open>i\<close> against row \<open>j\<close>: the coefficient at \<open>j\<close>
  comes to lie in \<open>[-1/2, 1/2]\<close> and the coefficients at the later rows stay.
\<close>

lemma reduce_step_bound:
  assumes "is_matrix B m" "j < i" "i < length B"
  defines "z \<equiv> round_away (mu (B ! i) (gram_schmidt B ! j))"
  shows "\<bar>mu (B[i := vsub (B ! i) (smult (of_int z) (B ! j))] ! i) (gram_schmidt B ! j)\<bar> \<le> 1 / 2"
proof (cases "dot (gram_schmidt B ! j) (gram_schmidt B ! j) = 0")
  case True
  then show ?thesis by (simp add: mu_def)
next
  case False
  from assms have j: "j < length B" by simp
  from mu_row_self[OF assms(1) j False] reduce_step_mu[OF assms(1,2,3) j, of "of_int z"]
  show ?thesis using abs_round_away[of "mu (B ! i) (gram_schmidt B ! j)"] by (simp add: z_def)
qed

lemma reduce_step_square:
  assumes "is_matrix B m" "j < i" "i < length B"
    and "\<bar>mu (B ! i) (gram_schmidt B ! j)\<bar> \<le> 1 / 2"
  defines "z \<equiv> round_away (mu (B ! i) (gram_schmidt B ! j))"
  shows "(mu (B[i := vsub (B ! i) (smult (of_int z) (B ! j))] ! i) (gram_schmidt B ! j))\<^sup>2
         = (mu (B ! i) (gram_schmidt B ! j))\<^sup>2"
proof (cases "dot (gram_schmidt B ! j) (gram_schmidt B ! j) = 0")
  case True
  then show ?thesis by (simp add: mu_def)
next
  case False
  from assms have j: "j < length B" by simp
  from mu_row_self[OF assms(1) j False] reduce_step_mu[OF assms(1,2,3) j, of "of_int z"]
  show ?thesis using round_away_half[OF assms(4)] by (simp add: z_def)
qed

lemma reduce_step_later:
  assumes "is_matrix B m" "j < i" "i < length B" "j < l" "l < length B"
  shows "mu (B[i := vsub (B ! i) (smult z (B ! j))] ! i) (gram_schmidt B ! l)
         = mu (B ! i) (gram_schmidt B ! l)"
  using reduce_step_mu[OF assms(1,2,3,5), of z] mu_row_later[OF assms(1,4,5)] by simp

lemma reduce_row_effect:
  assumes "is_matrix B m" "i < length B" "j0 \<le> i"
  shows "(\<forall>l. j0 \<le> l \<and> l < length B \<longrightarrow>
            mu (reduce_row B (gram_schmidt B) i (rev [0..<j0]) ! i) (gram_schmidt B ! l)
              = mu (B ! i) (gram_schmidt B ! l)) \<and>
         (\<forall>l<j0. \<bar>mu (reduce_row B (gram_schmidt B) i (rev [0..<j0]) ! i) (gram_schmidt B ! l)\<bar> \<le> 1 / 2)"
  using assms
proof (induction j0 arbitrary: B)
  case 0
  then show ?case by simp
next
  case (Suc j)
  let ?G = "gram_schmidt B"
  let ?z = "round_away (mu (B ! i) (?G ! j))"
  let ?B = "B[i := vsub (B ! i) (smult (of_int ?z) (B ! j))]"
  from Suc.prems have j: "j < i" and jl: "j < length B" by simp_all
  have m: "is_matrix ?B m" by (rule is_matrix_row_op[OF Suc.prems(1) jl Suc.prems(2)])
  have G: "gram_schmidt ?B = ?G" by (rule gram_schmidt_row_op[OF Suc.prems(1) j Suc.prems(2)])
  have unf: "reduce_row B ?G i (rev [0..<Suc j]) = reduce_row ?B ?G i (rev [0..<j])" by simp
  from Suc.IH[OF m] Suc.prems j have
    keep: "\<forall>l. j \<le> l \<and> l < length B \<longrightarrow>
            mu (reduce_row ?B ?G i (rev [0..<j]) ! i) (?G ! l) = mu (?B ! i) (?G ! l)"
    and small: "\<forall>l<j. \<bar>mu (reduce_row ?B ?G i (rev [0..<j]) ! i) (?G ! l)\<bar> \<le> 1 / 2"
    by (simp_all add: G)
  have 1: "\<forall>l. Suc j \<le> l \<and> l < length B \<longrightarrow>
            mu (reduce_row B ?G i (rev [0..<Suc j]) ! i) (?G ! l) = mu (B ! i) (?G ! l)"
  proof (intro allI impI)
    fix l assume l: "Suc j \<le> l \<and> l < length B"
    then have "j < l" "l < length B" by simp_all
    from reduce_step_later[OF Suc.prems(1) j Suc.prems(2) this] keep l
    show "mu (reduce_row B ?G i (rev [0..<Suc j]) ! i) (?G ! l) = mu (B ! i) (?G ! l)"
      unfolding unf by simp
  qed
  have 2: "\<forall>l<Suc j. \<bar>mu (reduce_row B ?G i (rev [0..<Suc j]) ! i) (?G ! l)\<bar> \<le> 1 / 2"
  proof (intro allI impI)
    fix l assume l: "l < Suc j"
    show "\<bar>mu (reduce_row B ?G i (rev [0..<Suc j]) ! i) (?G ! l)\<bar> \<le> 1 / 2"
    proof (cases "l = j")
      case True
      from keep jl have "mu (reduce_row ?B ?G i (rev [0..<j]) ! i) (?G ! j) = mu (?B ! i) (?G ! j)"
        by simp
      with reduce_step_bound[OF Suc.prems(1) j Suc.prems(2)] True show ?thesis
        unfolding unf by simp
    next
      case False
      with l small show ?thesis unfolding unf by simp
    qed
  qed
  from 1 2 show ?case by blast
qed

lemma reduce_row_adjacent:
  assumes "is_matrix B m" "Suc j < length B"
    and "\<bar>mu (B ! Suc j) (gram_schmidt B ! j)\<bar> \<le> 1 / 2"
  shows "(mu (reduce_row B (gram_schmidt B) (Suc j) (rev [0..<Suc j]) ! Suc j) (gram_schmidt B ! j))\<^sup>2
         = (mu (B ! Suc j) (gram_schmidt B ! j))\<^sup>2"
proof -
  let ?G = "gram_schmidt B"
  let ?z = "round_away (mu (B ! Suc j) (?G ! j))"
  let ?B = "B[Suc j := vsub (B ! Suc j) (smult (of_int ?z) (B ! j))]"
  have j: "j < Suc j" by simp
  from assms(2) have jl: "j < length B" by simp
  have m: "is_matrix ?B m" by (rule is_matrix_row_op[OF assms(1) jl assms(2)])
  have G: "gram_schmidt ?B = ?G" by (rule gram_schmidt_row_op[OF assms(1) j assms(2)])
  have unf: "reduce_row B ?G (Suc j) (rev [0..<Suc j]) = reduce_row ?B ?G (Suc j) (rev [0..<j])"
    by simp
  from reduce_row_effect[OF m, of "Suc j" j] assms(2) jl
  have "mu (reduce_row ?B ?G (Suc j) (rev [0..<j]) ! Suc j) (?G ! j) = mu (?B ! Suc j) (?G ! j)"
    by (simp add: G)
  with reduce_step_square[OF assms(1) j assms(2,3)] show ?thesis
    unfolding unf by simp
qed

lemma size_reduce_rows_effect:
  assumes "is_matrix B m" "r \<le> length B"
  defines "G \<equiv> gram_schmidt B"
  defines "F \<equiv> \<lambda>r. foldl (\<lambda>B' i. reduce_row B' G i (rev [0..<i])) B [0..<r]"
  shows "(\<forall>k. r \<le> k \<longrightarrow> F r ! k = B ! k) \<and>
         (\<forall>k<r. \<forall>l<k. \<bar>mu (F r ! k) (G ! l)\<bar> \<le> 1 / 2) \<and>
         (\<forall>j. Suc j < r \<and> \<bar>mu (B ! Suc j) (G ! j)\<bar> \<le> 1 / 2 \<longrightarrow>
              (mu (F r ! Suc j) (G ! j))\<^sup>2 = (mu (B ! Suc j) (G ! j))\<^sup>2)"
  using assms(2)
proof (induction r)
  case 0
  then show ?case by (simp add: F_def)
next
  case (Suc r)
  then have r: "r < length B" "r \<le> length B" by simp_all
  from Suc.IH[OF r(2)] have
    keep: "\<forall>k. r \<le> k \<longrightarrow> F r ! k = B ! k"
    and small: "\<forall>k<r. \<forall>l<k. \<bar>mu (F r ! k) (G ! l)\<bar> \<le> 1 / 2"
    and square: "\<forall>j. Suc j < r \<and> \<bar>mu (B ! Suc j) (G ! j)\<bar> \<le> 1 / 2 \<longrightarrow>
              (mu (F r ! Suc j) (G ! j))\<^sup>2 = (mu (B ! Suc j) (G ! j))\<^sup>2"
    by blast+
  have rows: "\<forall>i \<in> set [0..<r]. i < length B" using r by simp
  from size_reduce_rows_same_lattice[OF assms(1) rows, of G]
  have m: "is_matrix (F r) m" and len: "length (F r) = length B" by (simp_all add: F_def)
  from size_reduce_rows_gram_schmidt[OF assms(1) rows, of G]
  have G: "gram_schmidt (F r) = G" by (simp add: F_def G_def)
  have step: "F (Suc r) = reduce_row (F r) G r (rev [0..<r])" by (simp add: F_def)
  have rl: "r < length (F r)" using r len by simp
  have 1: "\<forall>k. Suc r \<le> k \<longrightarrow> F (Suc r) ! k = B ! k"
    using keep by (simp add: step reduce_row_other)
  have 2: "\<forall>k<Suc r. \<forall>l<k. \<bar>mu (F (Suc r) ! k) (G ! l)\<bar> \<le> 1 / 2"
  proof (intro allI impI)
    fix k l assume k: "k < Suc r" and l: "l < k"
    show "\<bar>mu (F (Suc r) ! k) (G ! l)\<bar> \<le> 1 / 2"
    proof (cases "k = r")
      case True
      from reduce_row_effect[OF m rl, of r] l True show ?thesis
        by (simp add: step G)
    next
      case False
      with k l small show ?thesis by (simp add: step reduce_row_other)
    qed
  qed
  have 3: "\<forall>j. Suc j < Suc r \<and> \<bar>mu (B ! Suc j) (G ! j)\<bar> \<le> 1 / 2 \<longrightarrow>
              (mu (F (Suc r) ! Suc j) (G ! j))\<^sup>2 = (mu (B ! Suc j) (G ! j))\<^sup>2"
  proof (intro allI impI)
    fix j assume j: "Suc j < Suc r \<and> \<bar>mu (B ! Suc j) (G ! j)\<bar> \<le> 1 / 2"
    show "(mu (F (Suc r) ! Suc j) (G ! j))\<^sup>2 = (mu (B ! Suc j) (G ! j))\<^sup>2"
    proof (cases "Suc j = r")
      case True
      with keep have same: "F r ! Suc j = B ! Suc j" by simp
      from rl True have "Suc j < length (F r)" by simp
      from reduce_row_adjacent[OF m this] j same True show ?thesis
        by (simp add: step G)
    next
      case False
      with j square show ?thesis by (simp add: step reduce_row_other)
    qed
  qed
  from 1 2 3 show ?case by blast
qed

text \<open>
  After the size reduction every coefficient lies in \<open>[-1/2, 1/2]\<close>, the orthogonal
  basis is the same, and the square of a coefficient between neighbouring rows that
  already lay in that interval is the same.
\<close>

lemma size_reduce_effect:
  assumes "is_matrix B m"
  defines "G \<equiv> gram_schmidt B"
  shows "size_reduced (size_reduce B G) G \<and>
         (\<forall>j. Suc j < length B \<and> \<bar>mu (B ! Suc j) (G ! j)\<bar> \<le> 1 / 2 \<longrightarrow>
              (mu (size_reduce B G ! Suc j) (G ! j))\<^sup>2 = (mu (B ! Suc j) (G ! j))\<^sup>2)"
  using size_reduce_rows_effect[OF assms(1), of "length B"] size_reduce_same_lattice[OF assms(1), of G]
  by (simp add: size_reduce_def size_reduced_def G_def)

subsection \<open>The reduced basis\<close>

lemma lovasz_square:
  assumes "(mu (B' ! Suc j) (G ! j))\<^sup>2 = (mu (B ! Suc j) (G ! j))\<^sup>2"
  shows "lovasz B' G j \<longleftrightarrow> lovasz B G j"
  using assms by (simp add: lovasz_def)

lemma swap_rows_take: "take i (swap_rows B i) = take i B"
  by (simp add: swap_rows_def)

lemma swap_rows_nth: "k < i \<Longrightarrow> swap_rows B i ! k = B ! k"
  by (simp add: swap_rows_def)

lemma gram_schmidt_prefix:
  assumes "take i B' = take i B" "l < i"
  shows "gram_schmidt B' ! l = gram_schmidt B ! l"
proof -
  have "take i (gram_schmidt B') = take i (gram_schmidt B)"
    using assms(1) by (simp add: gram_schmidt_take)
  then have "take i (gram_schmidt B') ! l = take i (gram_schmidt B) ! l" by simp
  with assms(2) show ?thesis by simp
qed

lemma lll_pass_invariant:
  assumes "is_matrix B m" "i + 1 < length B" "lll_invariant B i" "lll_pass B i = (B', i')"
  shows "lll_invariant B' i'"
proof -
  let ?G = "gram_schmidt B"
  let ?B1 = "size_reduce B ?G"
  from size_reduce_same_lattice[OF assms(1), of ?G]
  have m1: "is_matrix ?B1 m" and len1: "length ?B1 = length B" by simp_all
  have G1: "gram_schmidt ?B1 = ?G" by (rule size_reduce_gram_schmidt[OF assms(1)])
  from size_reduce_effect[OF assms(1)] have
    small: "\<forall>k<length B. \<forall>l<k. \<bar>mu (?B1 ! k) (?G ! l)\<bar> \<le> 1 / 2"
    and square: "\<forall>j. Suc j < length B \<and> \<bar>mu (B ! Suc j) (?G ! j)\<bar> \<le> 1 / 2 \<longrightarrow>
              (mu (?B1 ! Suc j) (?G ! j))\<^sup>2 = (mu (B ! Suc j) (?G ! j))\<^sup>2"
    by (simp_all add: size_reduced_def len1)
  from assms(3) have
    inv_small: "\<forall>k<Suc i. \<forall>l<k. \<bar>mu (B ! k) (?G ! l)\<bar> \<le> 1 / 2"
    and inv_lovasz: "\<forall>j<i. lovasz B ?G j"
    by (simp_all add: lll_invariant_def Let_def)
  have before: "\<forall>j<i. lovasz ?B1 ?G j"
  proof (intro allI impI)
    fix j assume j: "j < i"
    with inv_small have "\<bar>mu (B ! Suc j) (?G ! j)\<bar> \<le> 1 / 2" by simp
    with square j assms(2) have "(mu (?B1 ! Suc j) (?G ! j))\<^sup>2 = (mu (B ! Suc j) (?G ! j))\<^sup>2"
      by simp
    from lovasz_square[OF this] inv_lovasz j show "lovasz ?B1 ?G j" by simp
  qed
  show ?thesis
  proof (cases "lovasz ?B1 ?G i")
    case True
    with assms(4) have B': "B' = ?B1" "i' = i + 1" by (simp_all add: lll_pass_def lovasz_step_def)
    have "\<forall>j<i + 1. lovasz ?B1 ?G j"
      using before True by (auto simp: less_Suc_eq)
    with small assms(2) show ?thesis
      by (simp add: lll_invariant_def Let_def B' G1)
  next
    case False
    with assms(4) have B': "B' = swap_rows ?B1 i" "i' = i - 1"
      by (simp_all add: lll_pass_def lovasz_step_def)
    let ?G' = "gram_schmidt (swap_rows ?B1 i)"
    have G': "\<forall>l<i. ?G' ! l = ?G ! l"
      using gram_schmidt_prefix[OF swap_rows_take, of _ i ?B1] by (simp add: G1)
    have a: "\<forall>k<Suc (i - 1). \<forall>l<k. \<bar>mu (swap_rows ?B1 i ! k) (?G' ! l)\<bar> \<le> 1 / 2"
    proof (intro allI impI)
      fix k l assume k: "k < Suc (i - 1)" and l: "l < k"
      then have "k < i" "l < i" by simp_all
      with small assms(2) l G' show "\<bar>mu (swap_rows ?B1 i ! k) (?G' ! l)\<bar> \<le> 1 / 2"
        by (simp add: swap_rows_nth)
    qed
    have b: "\<forall>j<i - 1. lovasz (swap_rows ?B1 i) ?G' j"
    proof (intro allI impI)
      fix j assume "j < i - 1"
      then have j: "j < i" "Suc j < i" by simp_all
      with before have "lovasz ?B1 ?G j" by simp
      with j G' show "lovasz (swap_rows ?B1 i) ?G' j"
        by (simp add: lovasz_def swap_rows_nth)
    qed
    from a b show ?thesis by (simp add: lll_invariant_def Let_def B')
  qed
qed

lemma lll_loop_reduced:
  assumes "lll_loop fuel B i = Inr BL" "is_matrix B m" "lll_invariant B i"
  shows "lll_reduced BL"
  using assms
proof (induction fuel arbitrary: B i)
  case 0
  then have "length B \<le> i + 1" "BL = B" by (simp_all split: if_splits)
  with 0(3) show ?case
    by (auto simp: lll_reduced_def size_reduced_def lll_invariant_def Let_def)
next
  case (Suc fuel)
  show ?case
  proof (cases "length B \<le> i + 1")
    case True
    with Suc.prems(1) have "BL = B" by simp
    with True Suc.prems(3) show ?thesis
      by (auto simp: lll_reduced_def size_reduced_def lll_invariant_def Let_def)
  next
    case False
    then have i: "i + 1 < length B" by simp
    obtain B' i' where pass: "lll_pass B i = (B', i')" by (cases "lll_pass B i")
    with Suc.prems(1) False have loop: "lll_loop fuel B' i' = Inr BL" by simp
    from lll_pass_same_lattice[OF Suc.prems(2) i pass] have m: "is_matrix B' m" by simp
    from lll_pass_invariant[OF Suc.prems(2) i Suc.prems(3) pass] have "lll_invariant B' i'" .
    from Suc.IH[OF loop m this] show ?thesis .
  qed
qed

lemma LLL_reduced:
  assumes "is_matrix B m" "LLL safety B = Inr BL"
  shows "lll_reduced BL"
proof -
  have "lll_invariant B 0" by (simp add: lll_invariant_def)
  from lll_loop_reduced[OF assms(2)[unfolded LLL_def] assms(1) this] show ?thesis .
qed

text \<open>
  C7. The reduction makes at most \<open>safety * dimension\<^sup>2\<close> passes. It is total: it
  returns a basis, or it reports \<open>ReductionNonTermination\<close>, and it reports the error
  only after it has used every pass of the cap. A basis that it returns for a matrix is
  LLL-reduced: size-reduced, with the Lovasz condition on every pair of neighbouring
  rows. A larger safety factor returns the same basis.
\<close>

theorem reduction_capped:
  "(LLL safety B = Inl ReductionNonTermination \<or> (\<exists>BL. LLL safety B = Inr BL)) \<and>
   lll_passes (iteration_cap safety B) B 0 \<le> safety * (length B)\<^sup>2 \<and>
   (LLL safety B = Inl ReductionNonTermination \<longrightarrow>
      lll_passes (iteration_cap safety B) B 0 = safety * (length B)\<^sup>2) \<and>
   (\<forall>BL m. is_matrix B m \<and> LLL safety B = Inr BL \<longrightarrow> lll_reduced BL) \<and>
   (\<forall>BL extra. LLL safety B = Inr BL \<longrightarrow> LLL (safety + extra) B = Inr BL)"
proof -
  have more: "\<forall>BL extra. LLL safety B = Inr BL \<longrightarrow> LLL (safety + extra) B = Inr BL"
  proof (intro allI impI)
    fix BL extra assume "LLL safety B = Inr BL"
    then have "lll_loop (iteration_cap safety B + extra * (length B)\<^sup>2) B 0 = Inr BL"
      unfolding LLL_def by (rule lll_loop_more_fuel)
    then show "LLL (safety + extra) B = Inr BL"
      by (simp add: LLL_def iteration_cap_def add_mult_distrib)
  qed
  have reduced: "\<forall>BL m. is_matrix B m \<and> LLL safety B = Inr BL \<longrightarrow> lll_reduced BL"
    using LLL_reduced by blast
  have total: "LLL safety B = Inl ReductionNonTermination \<or> (\<exists>BL. LLL safety B = Inr BL)"
    using lll_loop_outcome[of "iteration_cap safety B" B 0] by (auto simp: LLL_def)
  have count: "lll_passes (iteration_cap safety B) B 0 \<le> safety * (length B)\<^sup>2"
    using lll_passes_le[of "iteration_cap safety B" B 0] by (simp add: iteration_cap_def)
  have used: "LLL safety B = Inl ReductionNonTermination \<longrightarrow>
      lll_passes (iteration_cap safety B) B 0 = safety * (length B)\<^sup>2"
    using lll_loop_gives_up[of "iteration_cap safety B" B 0 ReductionNonTermination]
    by (auto simp: LLL_def iteration_cap_def)
  from total count used reduced more show ?thesis by blast
qed

subsection \<open>A reduction pass by pass\<close>

text \<open>
  The basis of two queries with inputs \<open>4\<close> and \<open>2\<close> modulo \<open>11\<close> is reduced in nine
  passes.
\<close>

lemma example_pass_1: "lll_pass [[11, 0, 0], [0, 11, 0], [4, 2, 1 / 11]] 0 = ([[11, 0, 0], [0, 11, 0], [4, 2, 1 / 11]], 1)"
  by code_simp

lemma example_pass_2: "lll_pass [[11, 0, 0], [0, 11, 0], [4, 2, 1 / 11]] 1 = ([[11, 0, 0], [4, 2, 1 / 11], [0, 11, 0]], 0)"
  by code_simp

lemma example_pass_3: "lll_pass [[11, 0, 0], [4, 2, 1 / 11], [0, 11, 0]] 0 = ([[4, 2, 1 / 11], [11, 0, 0], [2, 1, - (5 / 11)]], 0)"
  by code_simp

lemma example_pass_4: "lll_pass [[4, 2, 1 / 11], [11, 0, 0], [2, 1, - (5 / 11)]] 0 = ([[4, 2, 1 / 11], [3, - 4, - (2 / 11)], [2, 1, - (5 / 11)]], 1)"
  by code_simp

lemma example_pass_5: "lll_pass [[4, 2, 1 / 11], [3, - 4, - (2 / 11)], [2, 1, - (5 / 11)]] 1 = ([[4, 2, 1 / 11], [2, 1, - (5 / 11)], [3, - 4, - (2 / 11)]], 0)"
  by code_simp

lemma example_pass_6: "lll_pass [[4, 2, 1 / 11], [2, 1, - (5 / 11)], [3, - 4, - (2 / 11)]] 0 = ([[2, 1, - (5 / 11)], [4, 2, 1 / 11], [3, - 4, - (2 / 11)]], 0)"
  by code_simp

lemma example_pass_7: "lll_pass [[2, 1, - (5 / 11)], [4, 2, 1 / 11], [3, - 4, - (2 / 11)]] 0 = ([[0, 0, 1], [2, 1, - (5 / 11)], [3, - 4, - (2 / 11)]], 0)"
  by code_simp

lemma example_pass_8: "lll_pass [[0, 0, 1], [2, 1, - (5 / 11)], [3, - 4, - (2 / 11)]] 0 = ([[0, 0, 1], [2, 1, - (5 / 11)], [3, - 4, - (2 / 11)]], 1)"
  by code_simp

lemma example_pass_9: "lll_pass [[0, 0, 1], [2, 1, - (5 / 11)], [3, - 4, - (2 / 11)]] 1 = ([[0, 0, 1], [2, 1, - (5 / 11)], [3, - 4, - (2 / 11)]], 2)"
  by code_simp


lemma example_reduction:
  "LLL 1 [[11, 0, 0], [0, 11, 0], [4, 2, 1 / 11]] =
     Inr [[0, 0, 1], [2, 1, - (5 / 11)], [3, - 4, - (2 / 11)]]"
  by (simp add: LLL_def iteration_cap_def eval_nat_numeral example_pass_1 example_pass_2[unfolded One_nat_def]
      example_pass_3 example_pass_4 example_pass_5[unfolded One_nat_def] example_pass_6 example_pass_7 example_pass_8
      example_pass_9[unfolded One_nat_def])

lemma example_passes:
  "lll_passes (iteration_cap 1 [[11, 0, 0], [0, 11, 0], [4, 2, 1 / 11]])
     [[11, 0, 0], [0, 11, 0], [4, 2, 1 / 11]] 0 = 9"
  by (simp add: iteration_cap_def eval_nat_numeral example_pass_1 example_pass_2[unfolded One_nat_def]
      example_pass_3 example_pass_4 example_pass_5[unfolded One_nat_def] example_pass_6 example_pass_7 example_pass_8
      example_pass_9[unfolded One_nat_def])

lemma example_orthogonal:
  "gram_schmidt [[0, 0, 1], [2, 1, - (5 / 11)], [3, - 4, - (2 / 11)]] =
     [[0, 0, 1], [2, 1, 0], [11 / 5, - (22 / 5), 0]]"
  by code_simp

lemma example_solve3:
  "nearest_plane [[0, 0, 1], [2, 1, - (5 / 11)], [3, - 4, - (2 / 11)]]
     [[0, 0, 1], [2, 1, 0], [11 / 5, - (22 / 5), 0]] [1, 5, 0] = Inr [1, 6, 3 / 11]"
  by code_simp

theorem reduction_preserves_lattice_witness:
  "is_matrix [[11, 0, 0], [0, 11, 0], [4, 2, 1 / 11]] 3 \<and>
   LLL 1 [[11, 0, 0], [0, 11, 0], [4, 2, 1 / 11]] =
     Inr [[0, 0, 1], [2, 1, - (5 / 11)], [3, - 4, - (2 / 11)]] \<and>
   is_matrix [[0, 0, 1], [2, 1, - (5 / 11)], [3, - 4, - (2 / 11)]] 3 \<and>
   same_lattice 3 [[11, 0, 0], [0, 11, 0], [4, 2, 1 / 11]]
     [[0, 0, 1], [2, 1, - (5 / 11)], [3, - 4, - (2 / 11)]] \<and>
   (in_lattice 3 [[11, 0, 0], [0, 11, 0], [4, 2, 1 / 11]] [1, 6, 3 / 11] \<longleftrightarrow>
    in_lattice 3 [[0, 0, 1], [2, 1, - (5 / 11)], [3, - 4, - (2 / 11)]] [1, 6, 3 / 11])"
proof -
  have m: "is_matrix [[11, 0, 0], [0, 11, 0], [4, 2, 1 / 11]] 3"
    by (simp add: is_matrix_def)
  from reduction_preserves_lattice[OF m example_reduction] m example_reduction
  show ?thesis by blast
qed

lemma example_not_reduced: "\<not> lll_reduced [[11, 0, 0], [0, 11, 0], [4, 2, 1 / 11]]"
  by code_simp

theorem reduction_capped_witness:
  "is_matrix [[11, 0, 0], [0, 11, 0], [4, 2, 1 / 11]] 3 \<and>
   LLL 1 [[11, 0, 0], [0, 11, 0], [4, 2, 1 / 11]] =
     Inr [[0, 0, 1], [2, 1, - (5 / 11)], [3, - 4, - (2 / 11)]] \<and>
   lll_reduced [[0, 0, 1], [2, 1, - (5 / 11)], [3, - 4, - (2 / 11)]] \<and>
   LLL (1 + 4) [[11, 0, 0], [0, 11, 0], [4, 2, 1 / 11]] =
     Inr [[0, 0, 1], [2, 1, - (5 / 11)], [3, - 4, - (2 / 11)]] \<and>
   LLL 0 [[11, 0, 0], [0, 11, 0], [4, 2, 1 / 11]] = Inl ReductionNonTermination \<and>
   lll_passes (iteration_cap 0 [[11, 0, 0], [0, 11, 0], [4, 2, 1 / 11]])
     [[11, 0, 0], [0, 11, 0], [4, 2, 1 / 11]] 0
     = 0 * (length [[11, 0, 0], [0, 11, 0], [4, 2, 1 / 11 :: rat]])\<^sup>2"
proof -
  have m: "is_matrix [[11, 0, 0], [0, 11, 0], [4, 2, 1 / 11]] 3"
    by (simp add: is_matrix_def)
  have stop: "LLL 0 [[11, 0, 0], [0, 11, 0], [4, 2, 1 / 11]] = Inl ReductionNonTermination"
    by (simp add: LLL_def iteration_cap_def)
  from reduction_capped[of 1 "[[11, 0, 0], [0, 11, 0], [4, 2, 1 / 11]]"] example_reduction m
  have "lll_reduced [[0, 0, 1], [2, 1, - (5 / 11)], [3, - 4, - (2 / 11)]]"
    and "LLL (1 + 4) [[11, 0, 0], [0, 11, 0], [4, 2, 1 / 11]] =
     Inr [[0, 0, 1], [2, 1, - (5 / 11)], [3, - 4, - (2 / 11)]]"
    by blast+
  moreover from reduction_capped[of 0 "[[11, 0, 0], [0, 11, 0], [4, 2, 1 / 11]]"] stop
  have "lll_passes (iteration_cap 0 [[11, 0, 0], [0, 11, 0], [4, 2, 1 / 11]])
     [[11, 0, 0], [0, 11, 0], [4, 2, 1 / 11]] 0
     = 0 * (length [[11, 0, 0], [0, 11, 0], [4, 2, 1 / 11 :: rat]])\<^sup>2"
    by blast
  ultimately show ?thesis using m example_reduction stop by blast
qed

section \<open>The whole run\<close>

lemma rational_mod_range:
  assumes "0 < m" "rational_mod x m = Inr c"
  shows "0 \<le> c \<and> c < m"
  using assms
  by (auto simp: rational_mod_def Let_def split: prod.splits sum.splits if_splits)

lemma recovered_alpha_range:
  assumes "0 < p" "recovered_alpha v p = Inr r"
  shows "0 \<le> r \<and> r \<le> p - 1"
proof -
  from assms(2) have "rational_mod (last v * of_int p) p = Inr r"
    by (simp add: recovered_alpha_def split: if_splits)
  from rational_mod_range[OF assms(1) this] show ?thesis by simp
qed

lemma solve_completed:
  assumes "solve p k d reducer tp i = Some (Inr (alpha, r, j))"
  shows "2 \<le> p \<and> alpha = draw p tp i \<and> (\<exists>v. recovered_alpha v p = Inr r)"
proof (cases "p < 2")
  case True
  with assms show ?thesis by (simp add: solve_def randint_empty)
next
  case False
  then have p: "2 \<le> p" by simp
  from assms p show ?thesis
    unfolding solve_def randint_draw[OF p]
    by (auto simp: Let_def split: option.splits sum.splits if_splits prod.splits)
qed

text \<open>
  C9, as the notebook has it. The candidate that the recovery line computes lies in
  \<open>[0, p - 1]\<close>. The run passes the final assertion exactly when the candidate is the
  hidden scalar, and only then is it known to lie in \<open>[1, p - 1]\<close>.
\<close>

theorem candidate_range:
  assumes "solve p k d reducer tp i = Some (Inr (alpha, r, j))"
  shows "0 \<le> r \<and> r \<le> p - 1 \<and> 1 \<le> alpha \<and> alpha \<le> p - 1 \<and>
         pipeline p k d reducer tp i =
           (if r = alpha then Some (Inr (r, j)) else Some (Inl AssertionError))"
proof -
  from solve_completed[OF assms] obtain v where p: "2 \<le> p" and a: "alpha = draw p tp i"
    and v: "recovered_alpha v p = Inr r" by blast
  from p have "0 < p" by simp
  from recovered_alpha_range[OF this v] draw_range[OF p, of tp i] a assms
  show ?thesis by (simp add: pipeline_def)
qed

lemma example_queries:
  "queries 2 (create_oracle 11 2 3) offset_tape 1 = Some (Inr ([(4, 1), (2, 5)], 13))"
  by code_simp

lemma example_basis:
  "build_basis 11 2 [4, 2] = Inr [[11, 0, 0], [0, 11, 0], [4, 2, 1 / 11]]"
  by code_simp

lemma example_recovery: "recovered_alpha [1, 6, 3 / 11] 11 = Inr 3"
  by code_simp

lemma example_closest:
  "approximate_closest_vector (LLL 1) [[11, 0, 0], [0, 11, 0], [4, 2, 1 / 11]] [1, 5, 0]
     = Inr [1, 6, 3 / 11]"
  by (simp add: approximate_closest_vector_def example_reduction[unfolded One_nat_def]
      example_orthogonal example_solve3)

lemma example_solve_run: "solve 11 2 2 (LLL 1) offset_tape 0 = Some (Inr (3, 3, 13))"
  by (simp add: solve_def randint_def offset_tape_def[of 0]
      example_queries[unfolded One_nat_def] example_basis example_closest[unfolded One_nat_def]
      example_recovery)

theorem candidate_range_witness:
  "solve 11 2 2 (LLL 1) offset_tape 0 = Some (Inr (3, 3, 13)) \<and>
   (0::int) \<le> 3 \<and> (3::int) \<le> 11 - 1 \<and>
   pipeline 11 2 2 (LLL 1) offset_tape 0 = Some (Inr (3, 13))"
  using candidate_range[OF example_solve_run] example_solve_run by simp

subsection \<open>Two runs with a weak oracle\<close>

lemma noisy_pass_1: "lll_pass [[5, 0, 0], [0, 5, 0], [1, 4, 1 / 5]] 0 = ([[5, 0, 0], [0, 5, 0], [1, - 1, 1 / 5]], 1)"
  by code_simp

lemma noisy_pass_2: "lll_pass [[5, 0, 0], [0, 5, 0], [1, - 1, 1 / 5]] 1 = ([[5, 0, 0], [1, - 1, 1 / 5], [0, 5, 0]], 0)"
  by code_simp

lemma noisy_pass_3: "lll_pass [[5, 0, 0], [1, - 1, 1 / 5], [0, 5, 0]] 0 = ([[1, - 1, 1 / 5], [5, 0, 0], [0, 0, 1]], 0)"
  by code_simp

lemma noisy_pass_4: "lll_pass [[1, - 1, 1 / 5], [5, 0, 0], [0, 0, 1]] 0 = ([[1, - 1, 1 / 5], [3, 2, - (2 / 5)], [0, 0, 1]], 1)"
  by code_simp

lemma noisy_pass_5: "lll_pass [[1, - 1, 1 / 5], [3, 2, - (2 / 5)], [0, 0, 1]] 1 = ([[1, - 1, 1 / 5], [0, 0, 1], [3, 2, - (2 / 5)]], 0)"
  by code_simp

lemma noisy_pass_6: "lll_pass [[1, - 1, 1 / 5], [0, 0, 1], [3, 2, - (2 / 5)]] 0 = ([[0, 0, 1], [1, - 1, 1 / 5], [2, 3, 2 / 5]], 0)"
  by code_simp

lemma noisy_pass_7: "lll_pass [[0, 0, 1], [1, - 1, 1 / 5], [2, 3, 2 / 5]] 0 = ([[0, 0, 1], [1, - 1, 1 / 5], [3, 2, - (2 / 5)]], 1)"
  by code_simp

lemma noisy_pass_8: "lll_pass [[0, 0, 1], [1, - 1, 1 / 5], [3, 2, - (2 / 5)]] 1 = ([[0, 0, 1], [1, - 1, 1 / 5], [2, 3, 2 / 5]], 2)"
  by code_simp

lemmas noisy_passes = noisy_pass_1 noisy_pass_2[unfolded One_nat_def] noisy_pass_3 noisy_pass_4
  noisy_pass_5[unfolded One_nat_def] noisy_pass_6 noisy_pass_7 noisy_pass_8[unfolded One_nat_def]

lemma noisy_reduction:
  "LLL 1 [[5, 0, 0], [0, 5, 0], [1, 4, 1 / 5]] = Inr [[0, 0, 1], [1, - 1, 1 / 5], [2, 3, 2 / 5]]"
  by (simp add: LLL_def iteration_cap_def eval_nat_numeral noisy_passes)

lemma noisy_orthogonal:
  "gram_schmidt [[0, 0, 1], [1, - 1, 1 / 5], [2, 3, 2 / 5]] = [[0, 0, 1], [1, - 1, 0], [5 / 2, 5 / 2, 0]]"
  by code_simp

lemma noisy_basis: "build_basis 5 2 [1, 4] = Inr [[5, 0, 0], [0, 5, 0], [1, 4, 1 / 5]]"
  by code_simp

lemma high_queries:
  "queries 2 (create_oracle 5 0 2) high_tape 1 = Some (Inr ([(1, 4), (4, 4)], 5))"
  by code_simp

lemma high_solved:
  "nearest_plane [[0, 0, 1], [1, - 1, 1 / 5], [2, 3, 2 / 5]]
     [[0, 0, 1], [1, - 1, 0], [5 / 2, 5 / 2, 0]] [4, 4, 0] = Inr [5, 5]"
  by code_simp

lemma high_recovery: "recovered_alpha [5, 5] 5 = Inr 0"
  by code_simp

lemma high_closest:
  "approximate_closest_vector (LLL 1) [[5, 0, 0], [0, 5, 0], [1, 4, 1 / 5]] [4, 4, 0] = Inr [5, 5]"
  by (simp add: approximate_closest_vector_def noisy_reduction[unfolded One_nat_def]
      noisy_orthogonal high_solved)

lemma high_run: "solve 5 0 2 (LLL 1) high_tape 0 = Some (Inr (2, 0, 5))"
  by (simp add: solve_def randint_def high_tape_def[of 0]
      high_queries[unfolded One_nat_def] noisy_basis high_closest[unfolded One_nat_def]
      high_recovery)

text \<open>
  The claim as the spec states it fails: at \<open>p = 5\<close> a run with hidden scalar \<open>2\<close>
  reaches the recovery line and computes the candidate \<open>0\<close>, which the assertion
  then refuses.
\<close>

theorem candidate_range_counterexample:
  "solve 5 0 2 (LLL 1) high_tape 0 = Some (Inr (2, 0, 5)) \<and> \<not> 1 \<le> (0::int) \<and>
   pipeline 5 0 2 (LLL 1) high_tape 0 = Some (Inl AssertionError)"
  using high_run by (simp add: pipeline_def)

subsection \<open>What the recovery line receives\<close>

lemma lattice_point_coordinates:
  assumes "p \<noteq> 0" "length ts = d" "build_basis p d ts = Inr basis"
    and "in_lattice (d + 1) basis w"
  shows "\<exists>c. w ! d = of_int c / of_int p \<and> (\<forall>j<d. \<exists>n. w ! j = of_int n)"
proof -
  let ?rows = "map (p_vector p d) [0..<d] @ [map of_int ts @ [1 / of_int p]]"
  from build_basis_rows[OF assms(1,2)] assms(3) have basis: "basis = ?rows" by simp
  from assms(4) obtain cf where cf: "\<forall>j<d + 1. w ! j = combination cf basis j"
    by (auto simp: in_lattice_def)
  have comb: "combination cf basis j
      = (\<Sum>i<d. of_int (cf i) * p_vector p d i ! j) + of_int (cf d) * (map of_int ts @ [1 / of_int p]) ! j"
    for j
    by (simp add: combination_def basis nth_append)
  have last: "w ! d = of_int (cf d) / of_int p"
    using cf assms(2) by (simp add: comb p_vector_nth nth_append)
  have "\<exists>n. w ! j = of_int n" if j: "j < d" for j
  proof -
    have "(\<Sum>i<d. of_int (cf i) * p_vector p d i ! j) = (\<Sum>i<d. if i = j then of_int (cf j * p) else (0::rat))"
      using j by (intro sum.cong) (simp_all add: p_vector_nth)
    also have "\<dots> = of_int (cf j * p)" using j by simp
    finally have "w ! j = of_int (cf j * p + cf d * ts ! j)"
      using cf j assms(2) by (simp add: comb nth_append)
    then show ?thesis by blast
  qed
  with last show ?thesis by blast
qed

lemma recovery_on_lattice_point:
  assumes "0 < p" "length w = d + 1" "w ! d = of_int c / of_int p"
    and "\<forall>j<d. \<exists>n. w ! j = of_int n" "coefficients w \<noteq> []"
  shows "recovered_alpha (coefficients w) p = Inr (c mod p)"
proof -
  have w: "w = take d w @ [w ! d]"
    using assms(2) by (metis Suc_eq_plus1 lessI take_Suc_conv_app_nth take_all order_refl)
  show ?thesis
  proof (cases "w ! d = 0")
    case False
    have "coefficients w = coefficients (take d w) @ [w ! d]"
      by (subst w) (simp add: coefficients_def False)
    then have "last (coefficients w) * of_int p = of_int c"
      using assms(1,3) by simp
    with assms(5) rational_mod_of_int[OF assms(1), of c] show ?thesis
      by (simp add: recovered_alpha_def)
  next
    case True
    with assms(1,3) have c: "c = 0" by simp
    have eq: "coefficients w = coefficients (take d w)"
      by (subst w) (simp add: coefficients_def True)
    with assms(5) have "last (coefficients w) \<in> set (take d w)"
      using last_in_set[of "coefficients (take d w)"] by (auto simp: coefficients_def)
    then obtain j where "j < d" "last (coefficients w) = w ! j"
      using assms(2) by (auto simp: in_set_conv_nth)
    with assms(4) obtain n where n: "last (coefficients w) = of_int n" by auto
    have "rational_mod (last (coefficients w) * of_int p) p = Inr ((n * p) mod p)"
      unfolding n using rational_mod_of_int[OF assms(1), of "n * p"] by simp
    with assms(5) c show ?thesis
      by (simp add: recovered_alpha_def)
  qed
qed

text \<open>
  What the recovery line computes from the list that the solver returns for a basis of
  \<open>build_basis\<close>, for any reducer whose rows are integer combinations of the rows of
  the basis. The solved vector \<open>w\<close> is a point of the lattice, its last coordinate is
  \<open>c / p\<close> for an integer \<open>c\<close>, and unless \<open>w\<close> is zero the candidate is \<open>c mod p\<close>,
  that is the last coordinate times \<open>p\<close>, modulo \<open>p\<close>. In particular the product
  \<open>v[-1] * p\<close> is an integer in every run.
\<close>

lemma recovery_candidate:
  assumes "0 < p" "length ts = d" "build_basis p d ts = Inr basis"
    and "reducer basis = Inr BL" "sublattice (d + 1) BL basis" "length v = d + 1"
    and "approximate_closest_vector reducer basis v = Inr r"
  shows "\<exists>w c. r = coefficients w \<and> in_lattice (d + 1) basis w \<and> w ! d = of_int c / of_int p \<and>
           recovered_alpha r p = (if r = [] then Inl IndexError else Inr (c mod p))"
proof -
  from assms(4,7) have "nearest_plane BL (gram_schmidt BL) v = Inr r"
    by (simp add: approximate_closest_vector_def)
  from closest_vector_lattice_point[OF this] assms(5,6) obtain w where
    w: "r = coefficients w" "length w = d + 1" "in_lattice (d + 1) basis w" by auto
  from assms(1) have "p \<noteq> 0" by simp
  from lattice_point_coordinates[OF this assms(2,3) w(3)] obtain c where
    c: "w ! d = of_int c / of_int p" "\<forall>j<d. \<exists>n. w ! j = of_int n" by blast
  have "recovered_alpha r p = (if r = [] then Inl IndexError else Inr (c mod p))"
  proof (cases "r = []")
    case True
    then show ?thesis by (simp add: recovered_alpha_def)
  next
    case False
    with recovery_on_lattice_point[OF assms(1) w(2) c] w(1) show ?thesis by simp
  qed
  with w c show ?thesis by blast
qed

subsection \<open>A zero solved vector\<close>

text \<open>
  When the solved vector is the zero vector the function returns the empty list, and
  the caller's \<open>v[-1]\<close> raises \<open>IndexError\<close>. That happens in the second run with the
  weak oracle, whose answers are both \<open>1\<close>. For the zero target it happens whatever the
  reduced basis is: the loop chooses \<open>c = 0\<close> at every row.
\<close>

lemma low_queries:
  "queries 2 (create_oracle 5 0 2) low_tape 1 = Some (Inr ([(1, 1), (4, 1)], 5))"
  by code_simp

lemma low_solved:
  "nearest_plane [[0, 0, 1], [1, - 1, 1 / 5], [2, 3, 2 / 5]]
     [[0, 0, 1], [1, - 1, 0], [5 / 2, 5 / 2, 0]] [1, 1, 0] = Inr []"
  by code_simp

lemma low_closest:
  "approximate_closest_vector (LLL 1) [[5, 0, 0], [0, 5, 0], [1, 4, 1 / 5]] [1, 1, 0] = Inr []"
  by (simp add: approximate_closest_vector_def noisy_reduction[unfolded One_nat_def]
      noisy_orthogonal low_solved)

lemma low_run: "solve 5 0 2 (LLL 1) low_tape 0 = Some (Inl IndexError)"
  by (simp add: solve_def randint_def low_tape_def[of 0]
      low_queries[unfolded One_nat_def] noisy_basis low_closest[unfolded One_nat_def]
      recovered_alpha_def)

lemma round_away_0: "round_away 0 = 0"
  by (simp add: round_away_def floor_eq_iff)

lemma dot_zero_left: "dot (replicate m 0) g = 0"
proof (induction m arbitrary: g)
  case 0
  then show ?case by (simp add: dot_def)
next
  case (Suc m)
  then show ?case by (cases g) (simp_all add: dot_def)
qed

lemma zero_target_loop:
  assumes "nearest_plane_loop BL G is (replicate m 0) = Inr small"
  shows "small = replicate m 0"
  using assms
proof (induction "is")
  case Nil
  then show ?case by simp
next
  case (Cons i "is")
  from loop_step[OF Cons.prems] have len: "length (BL ! i) = m"
    and rest: "nearest_plane_loop BL G is
      (vsub (replicate m 0) (smult (of_int (round_away (dot (replicate m 0) (G ! i) / dot (G ! i) (G ! i)))) (BL ! i)))
      = Inr small" by simp_all
  have "vsub (replicate m 0) (smult (of_int (round_away (dot (replicate m 0) (G ! i) / dot (G ! i) (G ! i)))) (BL ! i))
    = replicate m 0"
    using len
    by (intro nth_equalityI)
      (simp_all add: length_vsub length_smult nth_vsub nth_smult dot_zero_left round_away_0)
  with rest Cons.IH show ?case by simp
qed

lemma zero_target:
  assumes "approximate_closest_vector reducer basis (replicate m 0) = Inr r"
  shows "r = [] \<and> recovered_alpha r p = Inl IndexError"
proof -
  from assms obtain BL small where
    "nearest_plane_loop BL (gram_schmidt BL) (rev [0..<ncols BL]) (replicate m 0) = Inr small"
    and r: "r = coefficients (vsub (replicate m 0) small)"
    by (auto simp: approximate_closest_vector_def nearest_plane_def Let_def split: sum.splits)
  from zero_target_loop[OF this(1)] have "small = replicate m 0" .
  moreover have "vsub (replicate m 0) (replicate m 0) = (replicate m 0 :: vec)"
    by (intro nth_equalityI) (simp_all add: length_vsub nth_vsub)
  ultimately show ?thesis using r by (simp add: coefficients_def recovered_alpha_def)
qed

lemma zero_target_solved:
  "nearest_plane [[1, - (2 / 5)], [0, 1]] [[1, - (2 / 5)], [10 / 29, 25 / 29]] [0, 0] = Inr []"
  by code_simp

text \<open>
  C4 fails on the notebook's code. When the solved vector is the zero vector the
  function returns the empty list, and the recovery line raises \<open>IndexError\<close> where
  the claim has the candidate \<open>0\<close>: for the target \<open>(0, 0)\<close>, and in a run at \<open>p = 5\<close>
  whose answers are both \<open>1\<close>. For every other solved vector the candidate is the
  last coordinate times \<open>p\<close>, modulo \<open>p\<close>, as the claim has it.
\<close>

theorem recovery_index_error:
  "approximate_closest_vector (LLL 1) [[5, 0], [2, 1 / 5]] [0, 0] = Inr [] \<and>
   approximate_closest_vector (LLL 1) [[5, 0, 0], [0, 5, 0], [1, 4, 1 / 5]] [1, 1, 0] = Inr [] \<and>
   recovered_alpha [] 5 = Inl IndexError \<and>
   solve 5 0 2 (LLL 1) low_tape 0 = Some (Inl IndexError)"
  by (simp add: approximate_closest_vector_def small_reduction[unfolded One_nat_def]
      small_orthogonal zero_target_solved noisy_reduction[unfolded One_nat_def] noisy_orthogonal
      low_solved low_run[unfolded One_nat_def] recovered_alpha_def)

end
